theory Spec2Isabelle
  imports Main "HOL-Library.Word" "HOL-Library.Signed_Division"
begin

unbundle bit_operations_syntax

section \<open>Data model of the DVD LPCM decoder (gstdvdlpcmdec.c)\<close>

text \<open>
  Machine integers are words of their C width: \<open>guint8\<close>/\<open>guchar\<close> is an 8-bit word,
  \<open>guint\<close>, \<open>guint32\<close> and \<open>gint\<close> are 32-bit words (a \<open>gint\<close> is read with \<open>sint\<close>
  where its sign matters), \<open>GstClockTime\<close> is a 64-bit word.
\<close>

type_synonym guint8 = "8 word"
type_synonym guint = "32 word"
type_synonym guint32 = "32 word"
type_synonym gint = "32 word"
type_synonym GstClockTime = "64 word"

text \<open>The caps built by \<open>gst_caps_new_simple ("audio/x-raw-int", ...)\<close>: big endian, signed.\<close>

record GstCaps =
  caps_rate :: gint
  caps_channels :: gint
  caps_depth :: gint
  caps_width :: gint

text \<open>A buffer: its bytes (\<open>GST_BUFFER_SIZE\<close> is their number), timestamp, duration, caps.\<close>

record GstBuffer =
  buf_data :: "guint8 list"
  buf_timestamp :: GstClockTime
  buf_duration :: GstClockTime
  buf_caps :: "GstCaps option"

definition GST_CLOCK_TIME_NONE :: GstClockTime where
  "GST_CLOCK_TIME_NONE = - 1"

definition GST_BUFFER_TIMESTAMP_IS_VALID :: "GstBuffer \<Rightarrow> bool" where
  "GST_BUFFER_TIMESTAMP_IS_VALID buf \<longleftrightarrow> buf_timestamp buf \<noteq> GST_CLOCK_TIME_NONE"

definition GST_BUFFER_SIZE :: "GstBuffer \<Rightarrow> guint" where
  "GST_BUFFER_SIZE buf = word_of_nat (length (buf_data buf))"

datatype GstFlowReturn =
    GST_FLOW_OK
  | GST_FLOW_NOT_LINKED
  | GST_FLOW_WRONG_STATE
  | GST_FLOW_UNEXPECTED
  | GST_FLOW_NOT_NEGOTIATED
  | GST_FLOW_ERROR
  | GST_FLOW_NOT_SUPPORTED

text \<open>
  What the element does to the outside, in the order it does it: a call of
  \<open>gst_pad_set_caps\<close> on the source pad with its answer, a sub-buffer handed to
  \<open>gst_dvdlpcmdec_chain_raw\<close>, a \<open>GST_ELEMENT_ERROR\<close>, a buffer request and a buffer
  pushed downstream by \<open>gst_pad_push\<close> with its answer.
\<close>

datatype event =
    SetCaps GstCaps bool
  | ChainRaw GstBuffer
  | ElementError string
  | AllocBuffer nat GstFlowReturn
  | Push GstBuffer GstFlowReturn

text \<open>
  The element's fields (\<open>struct _GstDvdLpcmDec\<close>), the caps of its source pad
  (\<open>GST_PAD_CAPS (srcpad)\<close>) and the trace of events so far.
\<close>

record GstDvdLpcmDec =
  rate :: gint
  channels :: gint
  width :: gint
  out_width :: gint
  dynamic_range :: gint
  emphasis :: bool
  mute :: bool
  timestamp :: GstClockTime
  header :: guint32
  srcpad_caps :: "GstCaps option"
  trace :: "event list"

text \<open>
  The pipeline around the element, which the source reaches through GStreamer calls that
  are not part of the element: the value of the macro \<open>GST_SECOND\<close>, whether the peer
  accepts caps, whether the source pad is usable, the answer to a buffer request with the
  bytes of the buffer it hands out, and the answer to a push. Each answer may depend on
  the events so far.
\<close>

record GstEnv =
  GST_SECOND :: int
  pad_set_caps :: "event list \<Rightarrow> GstCaps \<Rightarrow> bool"
  pad_is_usable :: "event list \<Rightarrow> bool"
  pad_alloc_buffer :: "event list \<Rightarrow> nat \<Rightarrow> GstFlowReturn"
  alloc_content :: "event list \<Rightarrow> nat \<Rightarrow> guint8"
  pad_push :: "event list \<Rightarrow> GstBuffer \<Rightarrow> GstFlowReturn"

text \<open>
  Traps of the C program, as values: a division by zero and an access outside a buffer.
\<close>

datatype fault = DivByZero | OutOfBounds

section \<open>Header parser\<close>

definition parse_header :: "GstDvdLpcmDec \<Rightarrow> guint32 \<Rightarrow> GstDvdLpcmDec" where
  "parse_header dec hdr =
    (let dec = dec\<lparr>dynamic_range := hdr AND 0xff\<rparr>;
         dec = dec\<lparr>mute := (hdr AND 0x400000 \<noteq> 0)\<rparr>;
         dec = dec\<lparr>emphasis := (hdr AND 0x800000 \<noteq> 0)\<rparr>;
         dec = (if hdr AND 0xC000 = 0x8000 then dec\<lparr>width := 24, out_width := 24\<rparr>
                else if hdr AND 0xC000 = 0x4000 then dec\<lparr>width := 20, out_width := 24\<rparr>
                else dec\<lparr>width := 16, out_width := 16\<rparr>);
         dec = (if hdr AND 0x1000 \<noteq> 0 then dec\<lparr>rate := 96000\<rparr>
                else dec\<lparr>rate := 48000\<rparr>)
     in dec\<lparr>channels := (drop_bit 8 hdr AND 0x7) + 1\<rparr>)"

section \<open>Session reset and timestamps\<close>

definition gst_dvdlpcm_reset :: "GstDvdLpcmDec \<Rightarrow> GstDvdLpcmDec" where
  "gst_dvdlpcm_reset dec =
     dec\<lparr>rate := 0, channels := 0, width := 0, out_width := 0, dynamic_range := 0,
         emphasis := False, mute := False, timestamp := 0, header := 0,
         srcpad_caps := None\<rparr>"

definition log_event :: "event \<Rightarrow> GstDvdLpcmDec \<Rightarrow> GstDvdLpcmDec" where
  "log_event e dec = dec\<lparr>trace := trace dec @ [e]\<rparr>"

text \<open>
  \<open>update_timestamps (dvdlpcmdec, buf, samples)\<close>. The parameter is an \<open>int\<close>; the
  product \<open>samples * GST_SECOND\<close> and the quotient by the rate are signed 64-bit
  (C division truncates: \<open>sdiv\<close>), stored into the unsigned 64-bit duration.
\<close>

definition update_timestamps ::
  "GstEnv \<Rightarrow> GstDvdLpcmDec \<Rightarrow> GstBuffer \<Rightarrow> gint \<Rightarrow> fault + (GstDvdLpcmDec \<times> GstBuffer)" where
  "update_timestamps env dec buf samples =
    (if rate dec = 0 then Inl DivByZero
     else
       let buf = buf\<lparr>buf_duration :=
                   word_of_int ((sint samples * GST_SECOND env) sdiv sint (rate dec))\<rparr>
       in if GST_BUFFER_TIMESTAMP_IS_VALID buf
          then Inr (dec\<lparr>timestamp := buf_timestamp buf\<rparr>, buf)
          else let dec = dec\<lparr>timestamp := timestamp dec + buf_duration buf\<rparr>
               in Inr (dec, buf\<lparr>buf_timestamp := timestamp dec\<rparr>))"

section \<open>Converter\<close>

text \<open>
  The loop of the 20-bit case: \<open>n\<close> iterations left, \<open>s\<close> and \<open>d\<close> the offsets of
  the pointers \<open>src\<close> and \<open>dest\<close> into the input and the output buffer.
\<close>

fun copy20 :: "nat \<Rightarrow> nat \<Rightarrow> nat \<Rightarrow> guint8 list \<Rightarrow> guint8 list \<Rightarrow> fault + guint8 list" where
  "copy20 0 s d src dest = Inr dest"
| "copy20 (Suc n) s d src dest =
     (if s + 10 \<le> length src \<and> d + 12 \<le> length dest then
        copy20 n (s + 10) (d + 12) src
          (dest[d := src ! s,
                d + 1 := src ! (s + 1),
                d + 2 := src ! (s + 8) AND 0xf0,
                d + 3 := src ! (s + 2),
                d + 4 := src ! (s + 3),
                d + 5 := push_bit 4 (src ! (s + 8) AND 0x0f),
                d + 6 := src ! (s + 4),
                d + 7 := src ! (s + 5),
                d + 8 := src ! (s + 9) AND 0x0f,
                d + 9 := src ! (s + 6),
                d + 10 := src ! (s + 7),
                d + 11 := push_bit 4 (src ! (s + 9) AND 0x0f)])
      else Inl OutOfBounds)"

text \<open>\<open>memcpy (dst + off, bs, length bs)\<close>, byte by byte.\<close>

fun memcpy :: "guint8 list \<Rightarrow> nat \<Rightarrow> guint8 list \<Rightarrow> guint8 list" where
  "memcpy dst off [] = dst"
| "memcpy dst off (b # bs) = memcpy (dst[off := b]) (Suc off) bs"

text \<open>The loop of the 24-bit case, in place: \<open>p\<close> is the offset of the pointer \<open>src\<close>.\<close>

fun reorder24 :: "nat \<Rightarrow> nat \<Rightarrow> guint8 list \<Rightarrow> fault + guint8 list" where
  "reorder24 0 p src = Inr src"
| "reorder24 (Suc n) p src =
     (if p + 12 \<le> length src then
        let temp = [src ! (p + 8), src ! (p + 2), src ! (p + 3),
                    src ! (p + 9), src ! (p + 4), src ! (p + 5),
                    src ! (p + 10), src ! (p + 6), src ! (p + 7)]
        in reorder24 n (p + 12) (memcpy src (p + 2) temp)
      else Inl OutOfBounds)"

text \<open>
  The \<open>switch (dvdlpcmdec->width)\<close> either leaves the function through one of its
  error labels, or goes on to the common tail with the buffer to push and the value of
  the function's variable \<open>samples\<close>.
\<close>

datatype switch_result =
    Leave GstFlowReturn GstDvdLpcmDec
  | Tail GstDvdLpcmDec GstBuffer guint

text \<open>
  \<open>case 20\<close>. The block declares its own \<open>gint64 samples\<close> (\<open>samples20\<close> here),
  computed from the 32-bit unsigned \<open>size * 8 / 20\<close>; the function's \<open>guint samples\<close>
  keeps its initial 0 and is what the tail passes on.
\<close>

definition convert20 ::
  "GstEnv \<Rightarrow> GstDvdLpcmDec \<Rightarrow> GstBuffer \<Rightarrow> fault + switch_result" where
  "convert20 env dec buf =
    (let size = GST_BUFFER_SIZE buf;
         samples20 = (ucast (size * 8 div 20) :: 64 word);
         count = (ucast (size div 10) :: 64 word);
         bufcaps = srcpad_caps dec;
         n = unat (ucast (samples20 * 3) :: gint);
         ret = pad_alloc_buffer env (trace dec) n;
         outbuf = \<lparr>buf_data = map (alloc_content env (trace dec)) [0..<n],
                   buf_timestamp = buf_timestamp buf,
                   buf_duration = buf_duration buf,
                   buf_caps = bufcaps\<rparr>;
         dec = log_event (AllocBuffer n ret) dec
     in if ret \<noteq> GST_FLOW_OK
        then Inr (Leave ret (log_event (ElementError ''Buffer allocation failed'') dec))
        else if channels dec = 0 then Inl DivByZero
        else (case copy20 (unat count) 0 0 (buf_data buf) (buf_data outbuf) of
                Inl f \<Rightarrow> Inl f
              | Inr dest \<Rightarrow> Inr (Tail dec (outbuf\<lparr>buf_data := dest\<rparr>) 0)))"

definition convert_switch ::
  "GstEnv \<Rightarrow> GstDvdLpcmDec \<Rightarrow> GstBuffer \<Rightarrow> fault + switch_result" where
  "convert_switch env dec buf =
    (let size = GST_BUFFER_SIZE buf in
     if width dec = 16 then
       (if channels dec = 0 then Inl DivByZero
        else Inr (Tail dec buf (size div channels dec div 2)))
     else if width dec = 20 then convert20 env dec buf
     else if width dec = 24 then
       (if channels dec = 0 then Inl DivByZero
        else (case reorder24 (unat (size div 12)) 0 (buf_data buf) of
                Inl f \<Rightarrow> Inl f
              | Inr data \<Rightarrow>
                  Inr (Tail dec (buf\<lparr>buf_data := data\<rparr>) (size div channels dec div 3))))
     else Inr (Leave GST_FLOW_NOT_NEGOTIATED
                 (log_event (ElementError ''Invalid sample width configured'') dec)))"

definition gst_dvdlpcmdec_chain_raw ::
  "GstEnv \<Rightarrow> GstDvdLpcmDec \<Rightarrow> GstBuffer \<Rightarrow> fault + (GstFlowReturn \<times> GstDvdLpcmDec)" where
  "gst_dvdlpcmdec_chain_raw env dec buf =
    (let dec = log_event (ChainRaw buf) dec in
     if rate dec = 0
     then Inr (GST_FLOW_NOT_NEGOTIATED,
               log_event (ElementError ''Buffer pushed before negotiation'') dec)
     else if \<not> pad_is_usable env (trace dec) then Inr (GST_FLOW_NOT_LINKED, dec)
     else (case convert_switch env dec buf of
             Inl f \<Rightarrow> Inl f
           | Inr (Leave ret dec) \<Rightarrow> Inr (ret, dec)
           | Inr (Tail dec buf samples) \<Rightarrow>
               (case update_timestamps env dec (buf\<lparr>buf_caps := srcpad_caps dec\<rparr>) samples of
                  Inl f \<Rightarrow> Inl f
                | Inr (dec, buf) \<Rightarrow>
                    let ret = pad_push env (trace dec) buf
                    in Inr (ret, log_event (Push buf ret) dec))))"

section \<open>Framer\<close>

text \<open>
  Modelled from the spec: \<open>gst_buffer_create_sub\<close> is GStreamer's own and not part of
  the sources. A sub-range is a contiguous slice of the chunk (the spec's glossary);
  a range that does not lie inside its parent gives no buffer, and the caller's next
  write through the result is then an access outside a buffer.
\<close>

definition gst_buffer_create_sub :: "GstBuffer \<Rightarrow> guint \<Rightarrow> guint \<Rightarrow> GstBuffer option" where
  "gst_buffer_create_sub buf off len =
    (if unat off + unat len \<le> length (buf_data buf)
     then Some \<lparr>buf_data = take (unat len) (drop (unat off) (buf_data buf)),
                buf_timestamp = GST_CLOCK_TIME_NONE,
                buf_duration = GST_CLOCK_TIME_NONE,
                buf_caps = buf_caps buf\<rparr>
     else None)"

text \<open>
  The two fields of the 5-byte header: \<open>(data[0] << 8) | data[1]\<close> and
  \<open>(data[2] << 16) | (data[3] << 8) | data[4]\<close>.
\<close>

definition first_access_of :: "guint8 list \<Rightarrow> guint" where
  "first_access_of data = push_bit 8 (ucast (data ! 0)) OR ucast (data ! 1)"

definition header_of :: "guint8 list \<Rightarrow> guint32" where
  "header_of data =
     push_bit 16 (ucast (data ! 2)) OR push_bit 8 (ucast (data ! 3)) OR ucast (data ! 4)"

text \<open>The caps built from the fields of the element, for the source pad.\<close>

definition src_caps_of :: "GstDvdLpcmDec \<Rightarrow> GstCaps" where
  "src_caps_of dec = \<lparr>caps_rate = rate dec, caps_channels = channels dec,
                        caps_depth = out_width dec, caps_width = out_width dec\<rparr>"

text \<open>
  Lines 335 to 359 of \<open>gst_dvdlpcmdec_chain_dvd\<close>: the header check. The flag is
  \<open>False\<close> where the source jumps to \<open>negotiation_failed\<close>.
\<close>

definition check_header :: "GstEnv \<Rightarrow> GstDvdLpcmDec \<Rightarrow> guint32 \<Rightarrow> GstDvdLpcmDec \<times> bool" where
  "check_header env dec hdr =
    (if hdr \<noteq> header dec then
       let dec = parse_header dec hdr;
           src_caps = src_caps_of dec;
           ok = pad_set_caps env (trace dec) src_caps;
           dec = log_event (SetCaps src_caps ok) dec
       in if \<not> ok then (dec, False)
          else (dec\<lparr>srcpad_caps := Some src_caps, header := hdr\<rparr>, True)
     else (dec, True))"

text \<open>
  \<open>gst_dvdlpcmdec_chain_dvd\<close>. Reading the header of a buffer of fewer than 5 bytes is
  an access outside the buffer. \<open>first_access > 4\<close> compares unsigned; \<open>len\<close> and
  \<open>off\<close> are \<open>gint\<close>, and \<open>len > 0\<close> compares signed.
\<close>

definition gst_dvdlpcmdec_chain_dvd ::
  "GstEnv \<Rightarrow> GstDvdLpcmDec \<Rightarrow> GstBuffer \<Rightarrow> fault + (GstFlowReturn \<times> GstDvdLpcmDec)" where
  "gst_dvdlpcmdec_chain_dvd env dec buf =
    (let size = GST_BUFFER_SIZE buf;
         data = buf_data buf
     in if length data < 5 then Inl OutOfBounds
     else
       let first_access = first_access_of data;
           hdr = header_of data;
           (dec, negotiated) = check_header env dec hdr
       in if \<not> negotiated then Inr (GST_FLOW_ERROR, dec)
       else
         let off = (5 :: gint) in
         if first_access > 4 then
           let len = (first_access - 4 :: gint);
               first =
                 (if 0 <s len then
                    (case gst_buffer_create_sub buf off len of
                       None \<Rightarrow> Inl OutOfBounds
                     | Some subbuf \<Rightarrow>
                         gst_dvdlpcmdec_chain_raw env dec
                           (subbuf\<lparr>buf_timestamp := GST_CLOCK_TIME_NONE\<rparr>))
                  else Inr (GST_FLOW_OK, dec))
           in (case first of
                 Inl f \<Rightarrow> Inl f
               | Inr (ret, dec) \<Rightarrow>
                   if 0 <s len \<and> ret \<noteq> GST_FLOW_OK then Inr (ret, dec)
                   else
                     let off = off + len;
                         len = size - off
                     in (case gst_buffer_create_sub buf off len of
                           None \<Rightarrow> Inl OutOfBounds
                         | Some subbuf \<Rightarrow>
                             gst_dvdlpcmdec_chain_raw env dec
                               (subbuf\<lparr>buf_timestamp := buf_timestamp buf\<rparr>)))
         else
           (case gst_buffer_create_sub buf off (size - off) of
              None \<Rightarrow> Inl OutOfBounds
            | Some subbuf \<Rightarrow>
                gst_dvdlpcmdec_chain_raw env dec
                  (subbuf\<lparr>buf_timestamp := GST_CLOCK_TIME_NONE\<rparr>)))"

section \<open>Reading the trace\<close>

text \<open>The buffers pushed downstream, the sub-buffers handed to the converter and the
  caps proposed downstream, each in order.\<close>

fun pushed :: "event list \<Rightarrow> GstBuffer list" where
  "pushed [] = []"
| "pushed (Push b r # es) = b # pushed es"
| "pushed (e # es) = pushed es"

fun forwarded :: "event list \<Rightarrow> GstBuffer list" where
  "forwarded [] = []"
| "forwarded (ChainRaw b # es) = b # forwarded es"
| "forwarded (e # es) = forwarded es"

fun negotiations :: "event list \<Rightarrow> (GstCaps \<times> bool) list" where
  "negotiations [] = []"
| "negotiations (SetCaps c ok # es) = (c, ok) # negotiations es"
| "negotiations (e # es) = negotiations es"

text \<open>The twelve bytes one iteration of the 20-bit loop writes, read at offset \<open>s\<close>.\<close>

definition group20 :: "guint8 list \<Rightarrow> nat \<Rightarrow> guint8 list" where
  "group20 src s =
     [src ! s, src ! (s + 1), src ! (s + 8) AND 0xf0,
      src ! (s + 2), src ! (s + 3), push_bit 4 (src ! (s + 8) AND 0x0f),
      src ! (s + 4), src ! (s + 5), src ! (s + 9) AND 0x0f,
      src ! (s + 6), src ! (s + 7), push_bit 4 (src ! (s + 9) AND 0x0f)]"

section \<open>Concrete sessions\<close>

text \<open>A pipeline that accepts every caps, is linked, hands out zeroed buffers and
  takes every push; the element right after \<open>gst_dvdlpcm_reset\<close>; a buffer without
  timestamp.\<close>

definition env_ok :: GstEnv where
  "env_ok = \<lparr>GST_SECOND = 1000000000,
              pad_set_caps = (\<lambda>_ _. True),
              pad_is_usable = (\<lambda>_. True),
              pad_alloc_buffer = (\<lambda>_ _. GST_FLOW_OK),
              alloc_content = (\<lambda>_ _. 0),
              pad_push = (\<lambda>_ _. GST_FLOW_OK)\<rparr>"

definition dec_init :: GstDvdLpcmDec where
  "dec_init = \<lparr>rate = 0, channels = 0, width = 0, out_width = 0, dynamic_range = 0,
                emphasis = False, mute = False, timestamp = 0, header = 0,
                srcpad_caps = None, trace = []\<rparr>"

definition raw_buffer :: "guint8 list \<Rightarrow> GstBuffer" where
  "raw_buffer bs = \<lparr>buf_data = bs, buf_timestamp = GST_CLOCK_TIME_NONE,
                      buf_duration = GST_CLOCK_TIME_NONE, buf_caps = None\<rparr>"

section \<open>The mappings of the specification\<close>

text \<open>The size of the output buffer of the 20-bit case for an input of \<open>L\<close> bytes,
  where \<open>size * 8\<close> does not wrap.\<close>

definition out20_size :: "nat \<Rightarrow> nat" where
  "out20_size L = 3 * (8 * L div 20)"

text \<open>
  The 20-bit mapping as the specification words it: one 12-byte group per whole 10-byte
  input group; the bytes of the output buffer past the last group keep what the buffer
  held (\<open>fill\<close>).
\<close>

definition expand20_spec :: "guint8 list \<Rightarrow> (nat \<Rightarrow> guint8) \<Rightarrow> guint8 list" where
  "expand20_spec src fill =
     map (\<lambda>i. if i < 12 * (length src div 10)
              then group20 src (10 * (i div 12)) ! (i mod 12)
              else fill i)
         [0..<out20_size (length src)]"

text \<open>
  The 24-bit mapping as the specification words it, applied to an untouched copy of the
  input: byte \<open>j\<close> of an output group is byte \<open>perm24 j\<close> of the input group; bytes
  past the last whole group stay.
\<close>

definition perm24 :: "nat \<Rightarrow> nat" where
  "perm24 j = [0, 1, 8, 2, 3, 9, 4, 5, 10, 6, 7, 11] ! j"

definition reorder24_spec :: "guint8 list \<Rightarrow> guint8 list" where
  "reorder24_spec src =
     map (\<lambda>i. if i < 12 * (length src div 12)
              then src ! (12 * (i div 12) + perm24 (i mod 12))
              else src ! i)
         [0..<length src]"

text \<open>The array \<open>temp\<close> of one iteration of the 24-bit loop.\<close>

definition temp24 :: "guint8 list \<Rightarrow> nat \<Rightarrow> guint8 list" where
  "temp24 src p = [src ! (p + 8), src ! (p + 2), src ! (p + 3),
                    src ! (p + 9), src ! (p + 4), src ! (p + 5),
                    src ! (p + 10), src ! (p + 6), src ! (p + 7)]"

text \<open>
  The buffer the common tail of \<open>gst_dvdlpcmdec_chain_raw\<close> pushes for a converted
  buffer and a sample count: the caps of the source pad, the duration and the timestamp
  \<open>update_timestamps\<close> gives it.
\<close>

definition stamped :: "GstEnv \<Rightarrow> GstDvdLpcmDec \<Rightarrow> GstBuffer \<Rightarrow> gint \<Rightarrow> GstBuffer" where
  "stamped env dec buf samples =
     (let d = (word_of_int ((sint samples * GST_SECOND env) sdiv sint (rate dec))
                 :: GstClockTime)
      in buf\<lparr>buf_timestamp :=
               (if buf_timestamp buf \<noteq> GST_CLOCK_TIME_NONE then buf_timestamp buf
                else timestamp dec + d),
             buf_duration := d,
             buf_caps := srcpad_caps dec\<rparr>)"

text \<open>The element after a first header for two channels at 48000 Hz, of 16, 20 and
  24 bits.\<close>

definition dec_16 :: GstDvdLpcmDec where "dec_16 = parse_header dec_init 0x0100"

definition dec_20 :: GstDvdLpcmDec where "dec_20 = parse_header dec_init 0x4100"

definition dec_24 :: GstDvdLpcmDec where "dec_24 = parse_header dec_init 0x8100"

text \<open>The input group of the specification's example for the 20-bit path, and the bytes
  of the buffers a call has pushed so far (none when the call trapped).\<close>

definition group_a5 :: "guint8 list" where
  "group_a5 = [0x11, 0x22, 0x33, 0x44, 0x55, 0x66, 0x77, 0x88, 0xA5, 0x5A]"

definition output_bytes :: "fault + (GstFlowReturn \<times> GstDvdLpcmDec) \<Rightarrow> guint8 list list" where
  "output_bytes r = (case r of Inl f \<Rightarrow> [] | Inr (ret, dec) \<Rightarrow> map buf_data (pushed (trace dec)))"

text \<open>A 12-byte group with pairwise different bytes.\<close>

definition ramp12 :: "guint8 list" where
  "ramp12 = [0, 1, 2, 3, 4, 5, 6, 7, 8, 9, 10, 11]"

section \<open>The sub-ranges of a chunk\<close>

text \<open>
  The sub-buffers the framer makes of a chunk: the bytes before the first access unit,
  without timestamp; the bytes from the first access unit on, with the timestamp of the
  chunk; and the whole payload without timestamp.
\<close>

definition previous_unit :: "GstBuffer \<Rightarrow> GstBuffer" where
  "previous_unit buf =
     \<lparr>buf_data = take (unat (first_access_of (buf_data buf)) - 4) (drop 5 (buf_data buf)),
       buf_timestamp = GST_CLOCK_TIME_NONE,
       buf_duration = GST_CLOCK_TIME_NONE,
       buf_caps = buf_caps buf\<rparr>"

definition new_unit :: "GstBuffer \<Rightarrow> GstBuffer" where
  "new_unit buf =
     \<lparr>buf_data = drop (unat (first_access_of (buf_data buf)) + 1) (buf_data buf),
       buf_timestamp = buf_timestamp buf,
       buf_duration = GST_CLOCK_TIME_NONE,
       buf_caps = buf_caps buf\<rparr>"

definition whole_payload :: "GstBuffer \<Rightarrow> GstBuffer" where
  "whole_payload buf =
     \<lparr>buf_data = drop 5 (buf_data buf),
       buf_timestamp = GST_CLOCK_TIME_NONE,
       buf_duration = GST_CLOCK_TIME_NONE,
       buf_caps = buf_caps buf\<rparr>"

text \<open>The sub-ranges a call has handed to the converter so far, each with its timestamp
  (none when the call trapped).\<close>

definition sub_ranges ::
  "fault + (GstFlowReturn \<times> GstDvdLpcmDec) \<Rightarrow> (guint8 list \<times> GstClockTime) list" where
  "sub_ranges r =
     (case r of Inl f \<Rightarrow> []
      | Inr (ret, dec) \<Rightarrow> map (\<lambda>b. (buf_data b, buf_timestamp b)) (forwarded (trace dec)))"

text \<open>
  Three chunks of a 16-bit stream for two channels at 48000 Hz (header word
  \<open>0x000100\<close>), with the timestamp 1000: the first access unit starts after four payload
  bytes (\<open>first_access = 8\<close>), at the first payload byte (\<open>first_access = 4\<close>), and at
  an offset outside the chunk. A pipeline that refuses every caps, and one whose source
  pad is not usable.
\<close>

definition chunk_fa8 :: GstBuffer where
  "chunk_fa8 = \<lparr>buf_data = [0x00, 0x08, 0x00, 0x01, 0x00, 1, 2, 3, 4, 5, 6, 7, 8],
                 buf_timestamp = 1000, buf_duration = GST_CLOCK_TIME_NONE,
                 buf_caps = None\<rparr>"

definition chunk_fa4 :: GstBuffer where
  "chunk_fa4 = \<lparr>buf_data = [0x00, 0x04, 0x00, 0x01, 0x00, 1, 2, 3, 4],
                 buf_timestamp = 1000, buf_duration = GST_CLOCK_TIME_NONE,
                 buf_caps = None\<rparr>"

definition chunk_fa100 :: GstBuffer where
  "chunk_fa100 = \<lparr>buf_data = [0x00, 0x64, 0x00, 0x01, 0x00, 1, 2, 3, 4],
                   buf_timestamp = 1000, buf_duration = GST_CLOCK_TIME_NONE,
                   buf_caps = None\<rparr>"

definition env_reject :: GstEnv where
  "env_reject = env_ok\<lparr>pad_set_caps := (\<lambda>_ _. False)\<rparr>"

definition env_unlinked :: GstEnv where
  "env_unlinked = env_ok\<lparr>pad_is_usable := (\<lambda>_. False)\<rparr>"

text \<open>The caps of that stream.\<close>

definition caps_16 :: GstCaps where
  "caps_16 = \<lparr>caps_rate = 48000, caps_channels = 2, caps_depth = 16, caps_width = 16\<rparr>"

text \<open>The sub-ranges in a trace: the bytes and the timestamp of every sub-buffer handed
  to the converter.\<close>

definition ranges_of :: "event list \<Rightarrow> (guint8 list \<times> GstClockTime) list" where
  "ranges_of tr = map (\<lambda>b. (buf_data b, buf_timestamp b)) (forwarded tr)"

text \<open>Two states of the element with the same stream format, stored header and source
  pad caps: they differ at most in the cursor and the trace.\<close>

definition same_format :: "GstDvdLpcmDec \<Rightarrow> GstDvdLpcmDec \<Rightarrow> bool" where
  "same_format a b \<longleftrightarrow>
     rate a = rate b \<and> channels a = channels b \<and> width a = width b
     \<and> out_width a = out_width b \<and> dynamic_range a = dynamic_range b
     \<and> emphasis a = emphasis b \<and> mute a = mute b
     \<and> header a = header b \<and> srcpad_caps a = srcpad_caps b"

text \<open>The element after it has taken the header word \<open>0x000100\<close> from a first chunk
  and the pipeline has accepted the caps.\<close>

definition dec_16_negotiated :: GstDvdLpcmDec where
  "dec_16_negotiated =
     dec_16\<lparr>trace := [SetCaps caps_16 True], srcpad_caps := Some caps_16, header := 0x100\<rparr>"

text \<open>The stream format of the element: the fields \<open>parse_header\<close> derives from a header
  word.\<close>

definition stream_format ::
  "GstDvdLpcmDec \<Rightarrow> gint \<times> gint \<times> gint \<times> gint \<times> gint \<times> bool \<times> bool" where
  "stream_format dec =
     (rate dec, channels dec, width dec, out_width dec, dynamic_range dec, emphasis dec,
      mute dec)"

text \<open>The caps proposed downstream by a call so far, each with the answer (none when the
  call trapped).\<close>

definition proposals ::
  "fault + (GstFlowReturn \<times> GstDvdLpcmDec) \<Rightarrow> (GstCaps \<times> bool) list" where
  "proposals r = (case r of Inl f \<Rightarrow> [] | Inr (ret, dec) \<Rightarrow> negotiations (trace dec))"

text \<open>The element after it has taken the header word \<open>0x000100\<close> from a first chunk
  and the pipeline has refused the caps.\<close>

definition dec_16_refused :: GstDvdLpcmDec where
  "dec_16_refused = dec_16\<lparr>trace := [SetCaps caps_16 False]\<rparr>"

section \<open>Properties of the header parser\<close>

lemma and_single_bit_22: "((h :: 32 word) AND 0x400000 \<noteq> 0) = bit h 22"
  using and_exp_eq_0_iff_not_bit [of h 22] by simp

lemma and_single_bit_23: "((h :: 32 word) AND 0x800000 \<noteq> 0) = bit h 23"
  using and_exp_eq_0_iff_not_bit [of h 23] by simp

lemma and_single_bit_12: "((h :: 32 word) AND 0x1000 \<noteq> 0) = bit h 12"
  using and_exp_eq_0_iff_not_bit [of h 12] by simp

lemma c000: "(0xC000 :: 32 word) = push_bit 14 (mask 2)"
  by (simp add: mask_eq_exp_minus_1)

lemma sel_bits: "(h :: 32 word) AND 0xC000 = push_bit 14 (take_bit 2 (drop_bit 14 h))"
  unfolding c000
  by (rule bit_word_eqI) (auto simp: bit_simps)

lemma push14_inj:
  "(push_bit 14 (take_bit 2 (x :: 32 word)) = push_bit 14 (take_bit 2 y))
     = (take_bit 2 x = take_bit 2 y)"
proof
  assume eq: "push_bit 14 (take_bit 2 x) = push_bit 14 (take_bit 2 y)"
  show "take_bit 2 x = take_bit 2 y"
  proof (rule bit_word_eqI)
    fix n assume "n < LENGTH(32)"
    from eq have "bit (push_bit 14 (take_bit 2 x)) (14 + n)
                    = bit (push_bit 14 (take_bit 2 y)) (14 + n)"
      by simp
    then show "bit (take_bit 2 x) n = bit (take_bit 2 y) n"
      by (auto simp: bit_simps)
  qed
next
  assume "take_bit 2 x = take_bit 2 y"
  then show "push_bit 14 (take_bit 2 x) = push_bit 14 (take_bit 2 y)" by simp
qed

lemma selector_24: "((h :: 32 word) AND 0xC000 = 0x8000) = (take_bit 2 (drop_bit 14 h) = 2)"
proof -
  have "(0x8000 :: 32 word) = push_bit 14 (take_bit 2 2)" by simp
  then show ?thesis unfolding sel_bits using push14_inj[of "drop_bit 14 h" 2] by simp
qed

lemma selector_20: "((h :: 32 word) AND 0xC000 = 0x4000) = (take_bit 2 (drop_bit 14 h) = 1)"
proof -
  have "(0x4000 :: 32 word) = push_bit 14 (take_bit 2 1)" by simp
  then show ?thesis unfolding sel_bits using push14_inj[of "drop_bit 14 h" 1] by simp
qed

lemma channel_bits: "(drop_bit 8 (h::32 word) AND 0x7) = take_bit 3 (drop_bit 8 h)"
  using take_bit_eq_mask[of 3 "drop_bit 8 h"] by (simp add: mask_eq_exp_minus_1)

lemma low_byte: "((h::32 word) AND 0xff) = take_bit 8 h"
  using take_bit_eq_mask[of 8 "h"] by (simp add: mask_eq_exp_minus_1)

lemma unat_channel_bits: "unat (take_bit 3 (drop_bit 8 (h::32 word)) + 1) = unat h div 256 mod 8 + 1"
proof -
  have "unat (take_bit 3 (drop_bit 8 h)) = take_bit 3 (drop_bit 8 (unat h))"
    by (simp only: unsigned_take_bit_eq unat_drop_bit_eq)
  then have a: "unat (take_bit 3 (drop_bit 8 h)) = unat h div 256 mod 8"
    by (simp only: take_bit_eq_mod drop_bit_eq_div) simp
  moreover have "unat h div 256 mod 8 < 8" by simp
  ultimately show ?thesis
    by (simp only: unat_word_ariths) simp
qed

lemma unat_low_byte: "unat (take_bit 8 (h::32 word)) = unat h mod 256"
proof -
  have "unat (take_bit 8 h) = take_bit 8 (unat h)"
    by (simp only: unsigned_take_bit_eq)
  then show ?thesis by (simp only: take_bit_eq_mod) simp
qed

text \<open>
  C1. For every header word \<open>h\<close>, \<open>parse_header\<close> stores: the dynamic range
  \<open>h & 0xFF\<close> (the low byte), mute = bit 22, emphasis = bit 23, the input width 24 when
  bits 15..14 are \<open>0b10\<close>, 20 when they are \<open>0b01\<close> and 16 otherwise, the rate 96000
  when bit 12 is set and 48000 otherwise, and the channel count \<open>((h >> 8) & 7) + 1\<close>.
  The function is total: it returns a format for every bit pattern.
\<close>

theorem parse_header_layout:
  "dynamic_range (parse_header dec h) = h AND 0xFF
   \<and> unat (dynamic_range (parse_header dec h)) = unat h mod 256
   \<and> mute (parse_header dec h) = bit h 22
   \<and> emphasis (parse_header dec h) = bit h 23
   \<and> width (parse_header dec h) =
       (if take_bit 2 (drop_bit 14 h) = 2 then 24
        else if take_bit 2 (drop_bit 14 h) = 1 then 20 else 16)
   \<and> rate (parse_header dec h) = (if bit h 12 then 96000 else 48000)
   \<and> channels (parse_header dec h) = (drop_bit 8 h AND 0x7) + 1
   \<and> unat (channels (parse_header dec h)) = unat h div 256 mod 8 + 1"
proof -
  have dr: "dynamic_range (parse_header dec h) = h AND 0xFF"
    by (simp add: parse_header_def Let_def)
  have ch: "channels (parse_header dec h) = (drop_bit 8 h AND 0x7) + 1"
    by (simp add: parse_header_def Let_def)
  have mu: "mute (parse_header dec h) = bit h 22"
    by (simp add: parse_header_def Let_def and_single_bit_22)
  have em: "emphasis (parse_header dec h) = bit h 23"
    by (simp add: parse_header_def Let_def and_single_bit_23)
  have wi: "width (parse_header dec h) =
       (if take_bit 2 (drop_bit 14 h) = 2 then 24
        else if take_bit 2 (drop_bit 14 h) = 1 then 20 else 16)"
    by (simp add: parse_header_def Let_def selector_24 selector_20)
  have ra: "rate (parse_header dec h) = (if bit h 12 then 96000 else 48000)"
    using and_single_bit_12 [of h] by (simp add: parse_header_def Let_def)
  have drn: "unat (dynamic_range (parse_header dec h)) = unat h mod 256"
    by (simp only: dr low_byte unat_low_byte)
  have chn: "unat (channels (parse_header dec h)) = unat h div 256 mod 8 + 1"
    by (simp only: ch channel_bits unat_channel_bits)
  from dr drn mu em wi ra ch chn show ?thesis by blast
qed

section \<open>The 20-bit loop\<close>

lemma length_group20: "length (group20 src s) = 12"
  by (simp add: group20_def)

lemma memcpy_length: "length (memcpy dst off bs) = length dst"
  by (induction bs arbitrary: dst off) auto

lemma memcpy_nth:
  "off + length bs \<le> length dst \<Longrightarrow>
     memcpy dst off bs ! i = (if off \<le> i \<and> i < off + length bs then bs ! (i - off) else dst ! i)"
proof (induction bs arbitrary: dst off)
  case Nil
  then show ?case by auto
next
  case (Cons b bs)
  have "memcpy (dst[off := b]) (Suc off) bs ! i =
          (if Suc off \<le> i \<and> i < Suc off + length bs then bs ! (i - Suc off) else dst[off := b] ! i)"
    using Cons.prems by (intro Cons.IH) simp
  then show ?case using Cons.prems
    by (auto simp: nth_list_update nth_Cons' Suc_diff_Suc)
qed

lemma step20_memcpy:
  "d + 12 \<le> length dest \<Longrightarrow>
   dest[d := src ! s,
                d + 1 := src ! (s + 1),
                d + 2 := src ! (s + 8) AND 0xf0,
                d + 3 := src ! (s + 2),
                d + 4 := src ! (s + 3),
                d + 5 := push_bit 4 (src ! (s + 8) AND 0x0f),
                d + 6 := src ! (s + 4),
                d + 7 := src ! (s + 5),
                d + 8 := src ! (s + 9) AND 0x0f,
                d + 9 := src ! (s + 6),
                d + 10 := src ! (s + 7),
                d + 11 := push_bit 4 (src ! (s + 9) AND 0x0f)] = memcpy dest d (group20 src s)"
  by (simp add: group20_def eval_nat_numeral)

lemma copy20_Suc:
  "copy20 (Suc n) s d src dest =
     (if s + 10 \<le> length src \<and> d + 12 \<le> length dest
      then copy20 n (s + 10) (d + 12) src (memcpy dest d (group20 src s))
      else Inl OutOfBounds)"
  using step20_memcpy [of d dest src s] by (simp del: list_update.simps push_bit_and)

lemma copy20_correct:
  "s + 10 * n \<le> length src \<Longrightarrow> d + 12 * n \<le> length dest \<Longrightarrow>
   \<exists>out. copy20 n s d src dest = Inr out \<and> length out = length dest \<and>
     (\<forall>i. out ! i =
        (if d \<le> i \<and> i < d + 12 * n
         then group20 src (s + 10 * ((i - d) div 12)) ! ((i - d) mod 12)
         else dest ! i))"
proof (induction n arbitrary: s d dest)
  case 0
  then show ?case by auto
next
  case (Suc n)
  let ?dest = "memcpy dest d (group20 src s)"
  have len: "length ?dest = length dest" by (simp add: memcpy_length)
  have fit: "d + length (group20 src s) \<le> length dest"
    using Suc.prems by (simp add: length_group20)
  from Suc.prems have "s + 10 + 10 * n \<le> length src" "d + 12 + 12 * n \<le> length ?dest"
    by (simp_all add: len)
  from Suc.IH [OF this] obtain out where
    run: "copy20 n (s + 10) (d + 12) src ?dest = Inr out" and
    lo: "length out = length ?dest" and
    nth: "\<And>i. out ! i =
        (if d + 12 \<le> i \<and> i < d + 12 + 12 * n
         then group20 src (s + 10 + 10 * ((i - (d + 12)) div 12)) ! ((i - (d + 12)) mod 12)
         else ?dest ! i)"
    by blast
  have step: "copy20 (Suc n) s d src dest = Inr out"
    using Suc.prems run by (simp only: copy20_Suc) simp
  have "out ! i =
        (if d \<le> i \<and> i < d + 12 * Suc n
         then group20 src (s + 10 * ((i - d) div 12)) ! ((i - d) mod 12)
         else dest ! i)" for i
  proof (cases "d + 12 \<le> i \<and> i < d + 12 + 12 * n")
    case True
    define j where "j = i - (d + 12)"
    have j: "i - d = j + 12" "i - (d + 12) = j"
      using True by (simp_all add: j_def)
    have dm: "(j + 12) div 12 = j div 12 + 1" "(j + 12) mod 12 = j mod 12" by simp_all
    have "out ! i = group20 src (s + 10 + 10 * (j div 12)) ! (j mod 12)"
      using True by (simp add: nth [of i] j)
    also have "s + 10 + 10 * (j div 12) = s + 10 * ((j + 12) div 12)"
      by (simp only: dm) simp
    finally have "out ! i = group20 src (s + 10 * ((i - d) div 12)) ! ((i - d) mod 12)"
      by (simp only: j dm)
    moreover have "d \<le> i \<and> i < d + 12 * Suc n" using True by simp
    ultimately show ?thesis by (simp del: mult_Suc_right)
  next
    case False
    then have "out ! i = ?dest ! i" by (auto simp: nth [of i])
    also have "\<dots> = (if d \<le> i \<and> i < d + 12 then group20 src s ! (i - d) else dest ! i)"
      using memcpy_nth [OF fit, of i] by (simp add: length_group20)
    finally show ?thesis using False by auto
  qed
  with step lo len show ?case by auto
qed



lemma unat_size: "L < 2 ^ 32 \<Longrightarrow> unat (word_of_nat L :: 32 word) = L"
  by (simp add: unat_of_nat)

lemma unat_ucast_self:
  "unat (w :: 'a::len word) < 2 ^ LENGTH('b::len) \<Longrightarrow> unat (ucast w :: 'b word) = unat w"
  by (simp add: unsigned_ucast_eq take_bit_nat_eq_self)

lemma count20_val:
  assumes "L < 2 ^ 32"
  shows "unat (ucast ((word_of_nat L :: 32 word) div 10) :: 64 word) = L div 10"
proof -
  have a: "unat ((word_of_nat L :: 32 word) div 10) = L div 10"
    using assms by (simp add: unat_div unat_of_nat)
  have "L div 10 < 2 ^ 64" using assms by (simp add: less_trans [OF div_less_dividend])
  then show ?thesis using a by (simp add: unat_ucast_self)
qed

lemma samples20_val:
  assumes "L < 2 ^ 29"
  shows "unat (ucast (ucast ((word_of_nat L :: 32 word) * 8 div 20) * (3 :: 64 word)) :: 32 word)
           = 3 * (8 * L div 20)"
proof -
  have L32: "L < 2 ^ 32" using assms by simp
  have "unat ((word_of_nat L :: 32 word) * 8) = 8 * L"
    using assms by (simp add: unat_word_ariths unat_of_nat L32)
  then have a: "unat ((word_of_nat L :: 32 word) * 8 div 20) = 8 * L div 20"
    by (simp add: unat_div)
  have c: "8 * L div 20 < 2 ^ 29" using assms by simp
  have b: "unat (ucast ((word_of_nat L :: 32 word) * 8 div 20) :: 64 word) = 8 * L div 20"
    using a c by (simp add: unat_ucast_self)
  have d: "unat (ucast ((word_of_nat L :: 32 word) * 8 div 20) * (3 :: 64 word)) = 3 * (8 * L div 20)"
    using b c by (simp add: unat_word_ariths)
  show ?thesis using c d
    by (simp add: unat_ucast_self)
qed

lemma groups_fit: "12 * (L div 10) \<le> out20_size L"
proof -
  have "10 * (L div 10) \<le> L" by simp
  then have "80 * (L div 10) \<le> 8 * L" by simp
  then have "80 * (L div 10) div 20 \<le> 8 * L div 20" by (rule div_le_mono)
  moreover have "80 * (L div 10) div 20 = 4 * (L div 10)" by simp
  ultimately have "4 * (L div 10) \<le> 8 * L div 20" by simp
  then show ?thesis unfolding out20_size_def by simp
qed

lemma samples20_size:
  "L < 2 ^ 29 \<Longrightarrow>
     unat (ucast (ucast ((word_of_nat L :: 32 word) * 8 div 20) * (3 :: 64 word)) :: 32 word)
       = out20_size L"
  unfolding out20_size_def by (rule samples20_val)

lemma copy20_expand:
  "copy20 (length src div 10) 0 0 src (map fill [0..<out20_size (length src)])
     = Inr (expand20_spec src fill)"
proof -
  let ?n = "out20_size (length src)"
  let ?dest = "map fill [0..<?n]"
  have a: "0 + 10 * (length src div 10) \<le> length src" by simp
  have b: "0 + 12 * (length src div 10) \<le> length ?dest"
    using groups_fit [of "length src"] by simp
  from copy20_correct [OF a b] obtain out where
    run: "copy20 (length src div 10) 0 0 src ?dest = Inr out" and
    len: "length out = length ?dest" and
    nth: "\<And>i. out ! i =
        (if 0 \<le> i \<and> i < 0 + 12 * (length src div 10)
         then group20 src (0 + 10 * ((i - 0) div 12)) ! ((i - 0) mod 12)
         else ?dest ! i)"
    by blast
  have "out = expand20_spec src fill"
  proof (rule nth_equalityI)
    show "length out = length (expand20_spec src fill)"
      using len by (simp add: expand20_spec_def)
  next
    fix i assume "i < length out"
    then have "i < ?n" using len by simp
    then show "out ! i = expand20_spec src fill ! i"
      by (simp add: nth [of i] expand20_spec_def)
  qed
  with run show ?thesis by simp
qed

lemma convert20_ok:
  assumes L: "length (buf_data buf) < 2 ^ 29"
    and alloc: "pad_alloc_buffer env (trace dec) (out20_size (length (buf_data buf)))
                  = GST_FLOW_OK"
    and ch: "channels dec \<noteq> 0"
  shows "convert20 env dec buf =
     Inr (Tail (log_event (AllocBuffer (out20_size (length (buf_data buf))) GST_FLOW_OK) dec)
            \<lparr>buf_data = expand20_spec (buf_data buf) (alloc_content env (trace dec)),
              buf_timestamp = buf_timestamp buf,
              buf_duration = buf_duration buf,
              buf_caps = srcpad_caps dec\<rparr> 0)"
proof -
  have L32: "length (buf_data buf) < 2 ^ 32" using L by simp
  show ?thesis
    using alloc ch
    by (simp add: convert20_def Let_def GST_BUFFER_SIZE_def samples20_size [OF L]
          count20_val [OF L32] copy20_expand log_event_def)
qed

section \<open>The 24-bit loop\<close>

lemma reorder24_Suc:
  "reorder24 (Suc n) p src =
     (if p + 12 \<le> length src then reorder24 n (p + 12) (memcpy src (p + 2) (temp24 src p))
      else Inl OutOfBounds)"
  by (simp add: temp24_def Let_def del: memcpy.simps)

lemma below_12:
  assumes "(j :: nat) < 12"
    and "P 0" "P 1" "P 2" "P 3" "P 4" "P 5" "P 6" "P 7" "P 8" "P 9" "P 10" "P 11"
  shows "P j"
proof -
  have "j \<in> {11, 10, 9, 8, 7, 6, 5, 4, 3, 2, 1, 0}" using assms(1) by simp arith
  then show ?thesis using assms(2-) by auto
qed

lemma perm24_lt:
  assumes "j < 12"
  shows "perm24 j < 12"
  by (rule below_12 [OF assms, where P = "\<lambda>j. perm24 j < 12"]) (simp_all add: perm24_def)

lemma length_temp24: "length (temp24 src p) = 9"
  by (simp add: temp24_def)

lemma group24_nth:
  assumes "p + 12 \<le> length src" "j < 12"
  shows "memcpy src (p + 2) (temp24 src p) ! (p + j) = src ! (p + perm24 j)"
proof -
  have fit: "p + 2 + length (temp24 src p) \<le> length src"
    using assms by (simp add: length_temp24)
  have eq: "memcpy src (p + 2) (temp24 src p) ! (p + j) =
              (if 2 \<le> j \<and> j < 11 then temp24 src p ! (j - 2) else src ! (p + j))"
    using memcpy_nth [OF fit, of "p + j"] by (simp add: length_temp24 del: memcpy.simps)
  have "(if 2 \<le> j \<and> j < 11 then temp24 src p ! (j - 2) else src ! (p + j))
          = src ! (p + perm24 j)"
    by (rule below_12 [OF assms(2), where
          P = "\<lambda>j. (if 2 \<le> j \<and> j < 11 then temp24 src p ! (j - 2) else src ! (p + j))
                  = src ! (p + perm24 j)"])
       (simp_all add: perm24_def temp24_def)
  then show ?thesis unfolding eq .
qed

lemma group24_outside:
  assumes "p + 12 \<le> length src" "i < p \<or> p + 12 \<le> i"
  shows "memcpy src (p + 2) (temp24 src p) ! i = src ! i"
proof -
  have fit: "p + 2 + length (temp24 src p) \<le> length src"
    using assms by (simp add: length_temp24)
  show ?thesis using assms(2) memcpy_nth [OF fit, of i]
    by (auto simp: length_temp24 simp del: memcpy.simps)
qed

lemma reorder24_correct:
  "p + 12 * n \<le> length src \<Longrightarrow>
   \<exists>out. reorder24 n p src = Inr out \<and> length out = length src \<and>
     (\<forall>i. out ! i =
        (if p \<le> i \<and> i < p + 12 * n
         then src ! (p + 12 * ((i - p) div 12) + perm24 ((i - p) mod 12))
         else src ! i))"
proof (induction n arbitrary: p src)
  case 0
  then show ?case by auto
next
  case (Suc n)
  let ?src = "memcpy src (p + 2) (temp24 src p)"
  have fit: "p + 12 \<le> length src" using Suc.prems by simp
  have len: "length ?src = length src" by (simp add: memcpy_length del: memcpy.simps)
  have "p + 12 + 12 * n \<le> length ?src" using Suc.prems by (simp add: memcpy_length del: memcpy.simps)
  from Suc.IH [OF this] obtain out where
    run: "reorder24 n (p + 12) ?src = Inr out" and
    lo: "length out = length ?src" and
    nth: "\<And>i. out ! i =
        (if p + 12 \<le> i \<and> i < p + 12 + 12 * n
         then ?src ! (p + 12 + 12 * ((i - (p + 12)) div 12) + perm24 ((i - (p + 12)) mod 12))
         else ?src ! i)"
    by blast
  have step: "reorder24 (Suc n) p src = Inr out"
    using fit run by (simp only: reorder24_Suc if_True)
  have "out ! i =
        (if p \<le> i \<and> i < p + 12 * Suc n
         then src ! (p + 12 * ((i - p) div 12) + perm24 ((i - p) mod 12))
         else src ! i)" for i
  proof (cases "p + 12 \<le> i \<and> i < p + 12 + 12 * n")
    case True
    define j where "j = i - (p + 12)"
    have j: "i - p = j + 12" "i - (p + 12) = j"
      using True by (simp_all add: j_def)
    have dm: "(j + 12) div 12 = j div 12 + 1" "(j + 12) mod 12 = j mod 12" by simp_all
    have "out ! i = ?src ! (p + 12 + 12 * (j div 12) + perm24 (j mod 12))"
      using True by (simp add: nth [of i] j del: memcpy.simps)
    also have "\<dots> = src ! (p + 12 + 12 * (j div 12) + perm24 (j mod 12))"
      by (rule group24_outside [OF fit]) simp
    also have "p + 12 + 12 * (j div 12) = p + 12 * ((j + 12) div 12)"
      by (simp only: dm) simp
    finally have "out ! i = src ! (p + 12 * ((i - p) div 12) + perm24 ((i - p) mod 12))"
      by (simp only: j dm)
    moreover have "p \<le> i \<and> i < p + 12 * Suc n" using True by simp
    ultimately show ?thesis by (simp del: mult_Suc_right)
  next
    case False
    then have o: "out ! i = ?src ! i" by (auto simp: nth [of i] simp del: memcpy.simps)
    show ?thesis
    proof (cases "p \<le> i \<and> i < p + 12")
      case True
      define j where "j = i - p"
      have j: "i = p + j" "j < 12" using True by (auto simp add: j_def)
      have g: "?src ! (p + j) = src ! (p + perm24 j)" by (rule group24_nth [OF fit j(2)])
      have dmj: "(i - p) div 12 = 0" "(i - p) mod 12 = j" using j by simp_all
      have inr: "p \<le> i \<and> i < p + 12 * Suc n" using True by simp
      have "out ! i = ?src ! (p + j)" using o by (simp only: j(1) [symmetric])
      also note g
      also have "src ! (p + perm24 j) =
                   src ! (p + 12 * ((i - p) div 12) + perm24 ((i - p) mod 12))"
        by (simp only: dmj) simp
      finally show ?thesis by (simp only: if_P [OF inr])
    next
      case F2: False
      then have "i < p \<or> p + 12 \<le> i" by auto
      then have e: "?src ! i = src ! i" by (rule group24_outside [OF fit])
      have n: "\<not> (p \<le> i \<and> i < p + 12 * Suc n)" using False F2 by auto
      show ?thesis by (simp only: o e if_not_P [OF n])
    qed
  qed
  with step lo len show ?case by (auto simp del: memcpy.simps mult_Suc_right)
qed

lemma count24_val:
  assumes "L < 2 ^ 32"
  shows "unat ((word_of_nat L :: 32 word) div 12) = L div 12"
  using assms by (simp add: unat_div unat_of_nat)

lemma reorder24_refines:
  assumes "length src < 2 ^ 32"
  shows "reorder24 (unat ((word_of_nat (length src) :: 32 word) div 12)) 0 src
           = Inr (reorder24_spec src)"
proof -
  have a: "0 + 12 * (length src div 12) \<le> length src" by simp
  from reorder24_correct [OF a] obtain out where
    run: "reorder24 (length src div 12) 0 src = Inr out" and
    len: "length out = length src" and
    nth: "\<And>i. out ! i =
        (if 0 \<le> i \<and> i < 0 + 12 * (length src div 12)
         then src ! (0 + 12 * ((i - 0) div 12) + perm24 ((i - 0) mod 12))
         else src ! i)"
    by blast
  have "out = reorder24_spec src"
  proof (rule nth_equalityI)
    show "length out = length (reorder24_spec src)"
      using len by (simp add: reorder24_spec_def)
  next
    fix i assume "i < length out"
    then have "i < length src" using len by simp
    then show "out ! i = reorder24_spec src ! i"
      by (simp add: nth [of i] reorder24_spec_def)
  qed
  with run show ?thesis by (simp add: count24_val [OF assms])
qed

section \<open>The converter, width by width\<close>

lemma update_timestamps_stamped:
  assumes "rate dec \<noteq> 0"
  shows "update_timestamps env dec (buf\<lparr>buf_caps := srcpad_caps dec\<rparr>) samples =
           Inr (dec\<lparr>timestamp := buf_timestamp (stamped env dec buf samples)\<rparr>,
                stamped env dec buf samples)"
  using assms
  by (simp add: update_timestamps_def stamped_def Let_def GST_BUFFER_TIMESTAMP_IS_VALID_def)

lemma chain_raw_tail:
  assumes r: "rate dec \<noteq> 0"
    and us: "pad_is_usable env (trace dec @ [ChainRaw buf])"
    and sw: "convert_switch env (log_event (ChainRaw buf) dec) buf = Inr (Tail dec1 buf1 samples)"
    and r1: "rate dec1 \<noteq> 0"
  shows "gst_dvdlpcmdec_chain_raw env dec buf =
           Inr (pad_push env (trace dec1) (stamped env dec1 buf1 samples),
                dec1\<lparr>timestamp := buf_timestamp (stamped env dec1 buf1 samples),
                     trace := trace dec1 @
                       [Push (stamped env dec1 buf1 samples)
                          (pad_push env (trace dec1) (stamped env dec1 buf1 samples))]\<rparr>)"
  using r us sw
  by (simp add: gst_dvdlpcmdec_chain_raw_def Let_def log_event_def
        update_timestamps_stamped [OF r1])

lemma convert_switch_16:
  assumes "width dec = 16" "channels dec \<noteq> 0"
  shows "convert_switch env dec buf =
           Inr (Tail dec buf (GST_BUFFER_SIZE buf div channels dec div 2))"
  using assms by (simp add: convert_switch_def Let_def)

lemma convert_switch_20:
  assumes "width dec = 20" "channels dec \<noteq> 0"
    and "length (buf_data buf) < 2 ^ 29"
    and "pad_alloc_buffer env (trace dec) (out20_size (length (buf_data buf))) = GST_FLOW_OK"
  shows "convert_switch env dec buf =
     Inr (Tail (log_event (AllocBuffer (out20_size (length (buf_data buf))) GST_FLOW_OK) dec)
            \<lparr>buf_data = expand20_spec (buf_data buf) (alloc_content env (trace dec)),
              buf_timestamp = buf_timestamp buf,
              buf_duration = buf_duration buf,
              buf_caps = srcpad_caps dec\<rparr> 0)"
  using assms(1) convert20_ok [OF assms(3) assms(4) assms(2)]
  by (simp add: convert_switch_def Let_def)

lemma convert_switch_24:
  assumes "width dec = 24" "channels dec \<noteq> 0"
    and "length (buf_data buf) < 2 ^ 32"
  shows "convert_switch env dec buf =
     Inr (Tail dec (buf\<lparr>buf_data := reorder24_spec (buf_data buf)\<rparr>)
            (GST_BUFFER_SIZE buf div channels dec div 3))"
  using assms(1,2) reorder24_refines [OF assms(3)]
  by (simp add: convert_switch_def Let_def GST_BUFFER_SIZE_def)

lemma dec_16_fields:
  "width dec_16 = 16" "rate dec_16 = 48000" "channels dec_16 = 2" "trace dec_16 = []"
  "timestamp dec_16 = 0" "srcpad_caps dec_16 = None" "header dec_16 = 0"
  by (simp_all add: dec_16_def parse_header_def dec_init_def Let_def)

lemma dec_20_fields:
  "width dec_20 = 20" "rate dec_20 = 48000" "channels dec_20 = 2" "trace dec_20 = []"
  "timestamp dec_20 = 0" "srcpad_caps dec_20 = None" "header dec_20 = 0"
  by (simp_all add: dec_20_def parse_header_def dec_init_def Let_def)

lemma dec_24_fields:
  "width dec_24 = 24" "rate dec_24 = 48000" "channels dec_24 = 2" "trace dec_24 = []"
  "timestamp dec_24 = 0" "srcpad_caps dec_24 = None" "header dec_24 = 0"
  by (simp_all add: dec_24_def parse_header_def dec_init_def Let_def)

lemma env_ok_fields:
  "GST_SECOND env_ok = 1000000000" "pad_set_caps env_ok tr c = True"
  "pad_is_usable env_ok tr = True" "pad_alloc_buffer env_ok tr n = GST_FLOW_OK"
  "alloc_content env_ok tr i = 0" "pad_push env_ok tr b = GST_FLOW_OK"
  by (simp_all add: env_ok_def)

lemma chain_raw_16:
  assumes "width dec = 16" "rate dec \<noteq> 0" "channels dec \<noteq> 0"
    and "pad_is_usable env (trace dec @ [ChainRaw buf])"
  shows "gst_dvdlpcmdec_chain_raw env dec buf =
    (let dec1 = log_event (ChainRaw buf) dec;
         out = stamped env dec1 buf (GST_BUFFER_SIZE buf div channels dec div 2);
         ret = pad_push env (trace dec1) out
     in Inr (ret, log_event (Push out ret) (dec1\<lparr>timestamp := buf_timestamp out\<rparr>)))"
proof -
  let ?dec1 = "log_event (ChainRaw buf) dec"
  have sw: "convert_switch env ?dec1 buf =
              Inr (Tail ?dec1 buf (GST_BUFFER_SIZE buf div channels ?dec1 div 2))"
    using assms by (intro convert_switch_16) (simp_all add: log_event_def)
  have r1: "rate ?dec1 \<noteq> 0" using assms by (simp add: log_event_def)
  show ?thesis
    using chain_raw_tail [OF assms(2) assms(4) sw r1]
    by (simp add: Let_def log_event_def)
qed

lemma chain_raw_24:
  assumes "width dec = 24" "rate dec \<noteq> 0" "channels dec \<noteq> 0"
    and "pad_is_usable env (trace dec @ [ChainRaw buf])"
    and "length (buf_data buf) < 2 ^ 32"
  shows "gst_dvdlpcmdec_chain_raw env dec buf =
    (let dec1 = log_event (ChainRaw buf) dec;
         out = stamped env dec1 (buf\<lparr>buf_data := reorder24_spec (buf_data buf)\<rparr>)
                 (GST_BUFFER_SIZE buf div channels dec div 3);
         ret = pad_push env (trace dec1) out
     in Inr (ret, log_event (Push out ret) (dec1\<lparr>timestamp := buf_timestamp out\<rparr>)))"
proof -
  let ?dec1 = "log_event (ChainRaw buf) dec"
  have sw: "convert_switch env ?dec1 buf =
              Inr (Tail ?dec1 (buf\<lparr>buf_data := reorder24_spec (buf_data buf)\<rparr>)
                     (GST_BUFFER_SIZE buf div channels ?dec1 div 3))"
    using assms by (intro convert_switch_24) (simp_all add: log_event_def)
  have r1: "rate ?dec1 \<noteq> 0" using assms by (simp add: log_event_def)
  show ?thesis
    using chain_raw_tail [OF assms(2) assms(4) sw r1]
    by (simp add: Let_def log_event_def)
qed

lemma chain_raw_20:
  assumes "width dec = 20" "rate dec \<noteq> 0" "channels dec \<noteq> 0"
    and "pad_is_usable env (trace dec @ [ChainRaw buf])"
    and "length (buf_data buf) < 2 ^ 29"
    and "pad_alloc_buffer env (trace dec @ [ChainRaw buf]) (out20_size (length (buf_data buf)))
           = GST_FLOW_OK"
  shows "gst_dvdlpcmdec_chain_raw env dec buf =
    (let dec1 = log_event (ChainRaw buf) dec;
         dec2 = log_event (AllocBuffer (out20_size (length (buf_data buf))) GST_FLOW_OK) dec1;
         out = stamped env dec2
                 \<lparr>buf_data = expand20_spec (buf_data buf) (alloc_content env (trace dec1)),
                   buf_timestamp = buf_timestamp buf,
                   buf_duration = buf_duration buf,
                   buf_caps = srcpad_caps dec\<rparr> 0;
         ret = pad_push env (trace dec2) out
     in Inr (ret, log_event (Push out ret) (dec2\<lparr>timestamp := buf_timestamp out\<rparr>)))"
proof -
  let ?dec1 = "log_event (ChainRaw buf) dec"
  let ?dec2 = "log_event (AllocBuffer (out20_size (length (buf_data buf))) GST_FLOW_OK) ?dec1"
  have sw: "convert_switch env ?dec1 buf =
     Inr (Tail ?dec2
            \<lparr>buf_data = expand20_spec (buf_data buf) (alloc_content env (trace ?dec1)),
              buf_timestamp = buf_timestamp buf,
              buf_duration = buf_duration buf,
              buf_caps = srcpad_caps ?dec1\<rparr> 0)"
    using assms by (intro convert_switch_20) (simp_all add: log_event_def)
  have r2: "rate ?dec2 \<noteq> 0" using assms by (simp add: log_event_def)
  show ?thesis
    using chain_raw_tail [OF assms(2) assms(4) sw r2]
    by (simp add: Let_def log_event_def)
qed

section \<open>The 20-bit example group\<close>

lemma pushed_append: "pushed (xs @ ys) = pushed xs @ pushed ys"
  by (induction xs rule: pushed.induct) simp_all

lemma forwarded_append: "forwarded (xs @ ys) = forwarded xs @ forwarded ys"
  by (induction xs rule: forwarded.induct) simp_all

lemma negotiations_append: "negotiations (xs @ ys) = negotiations xs @ negotiations ys"
  by (induction xs rule: negotiations.induct) simp_all

lemma list12_eqI:
  assumes "length xs = 12"
    and "xs ! 0 = a0" "xs ! 1 = a1" "xs ! 2 = a2" "xs ! 3 = a3" "xs ! 4 = a4" "xs ! 5 = a5"
    and "xs ! 6 = a6" "xs ! 7 = a7" "xs ! 8 = a8" "xs ! 9 = a9" "xs ! 10 = a10" "xs ! 11 = a11"
  shows "xs = [a0, a1, a2, a3, a4, a5, a6, a7, a8, a9, a10, a11]"
proof (rule nth_equalityI)
  show "length xs = length [a0, a1, a2, a3, a4, a5, a6, a7, a8, a9, a10, a11]"
    using assms(1) by simp
next
  fix i assume "i < length xs"
  then have "i < 12" using assms(1) by simp
  then show "xs ! i = [a0, a1, a2, a3, a4, a5, a6, a7, a8, a9, a10, a11] ! i"
    by (rule below_12 [where
          P = "\<lambda>i. xs ! i = [a0, a1, a2, a3, a4, a5, a6, a7, a8, a9, a10, a11] ! i"])
       (use assms(2-) in simp_all)
qed

lemma expand20_one_group:
  assumes "length src = 10"
  shows "expand20_spec src fill = group20 src 0"
proof -
  have n: "out20_size 10 = 12" by (simp add: out20_size_def)
  have "expand20_spec src fill ! i = group20 src 0 ! i" if "i < 12" for i
    using that assms by (simp add: expand20_spec_def n)
  moreover have "length (expand20_spec src fill) = 12"
    using assms by (simp add: expand20_spec_def n)
  ultimately show ?thesis
    by (intro nth_equalityI) (simp_all add: length_group20)
qed

lemma expand20_group_a5:
  "expand20_spec group_a5 fill =
     [0x11, 0x22, 0xA0, 0x33, 0x44, 0x50, 0x55, 0x66, 0x0A, 0x77, 0x88, 0xA0]"
  by (simp add: expand20_one_group group_a5_def group20_def)

lemma length_group_a5: "length group_a5 = 10"
  by (simp add: group_a5_def)

lemma out20_size_10: "out20_size 10 = 12"
  by (simp add: out20_size_def)

lemma buf_data_stamped: "buf_data (stamped env dec buf samples) = buf_data buf"
  by (simp add: stamped_def Let_def)

lemma buf_duration_stamped:
  "buf_duration (stamped env dec buf samples) =
     word_of_int ((sint samples * GST_SECOND env) sdiv sint (rate dec))"
  by (simp add: stamped_def Let_def)

text \<open>
  C3, as amended. For the input group \<open>[0x11,0x22,0x33,0x44,0x55,0x66,0x77,0x88,0xA5,0x5A]\<close>
  the 20-bit path pushes a 12-byte group in which byte 2 holds \<open>0xA0\<close>, byte 5 holds
  \<open>0x50\<close> and byte 11 holds \<open>0xA0\<close>, and bytes 0, 1, 3, 4, 6, 7, 9 and 10 are the input
  bytes 0 to 7 in their order. Nothing is said of byte 8: the statement
  \<open>dest[8] = src[9] & 0x0f\<close> leaves the value in the low nibble, against the comment of
  the loop (\<open>0x00\<close> in the lowest nibble) and against \<open>dest[2] = src[8] & 0xf0\<close>.
\<close>

theorem group_a5_output:
  assumes "width dec = 20" "rate dec \<noteq> 0" "channels dec \<noteq> 0"
    and "pad_is_usable env (trace dec @ [ChainRaw buf])"
    and "pad_alloc_buffer env (trace dec @ [ChainRaw buf]) 12 = GST_FLOW_OK"
    and "buf_data buf = group_a5"
  shows "\<exists>byte8.
           output_bytes (gst_dvdlpcmdec_chain_raw env dec buf) =
             map buf_data (pushed (trace dec)) @
             [[0x11, 0x22, 0xA0, 0x33, 0x44, 0x50, 0x55, 0x66, byte8, 0x77, 0x88, 0xA0]]"
proof -
  have L: "length (buf_data buf) < 2 ^ 29" using assms(6) by (simp add: length_group_a5)
  have al: "pad_alloc_buffer env (trace dec @ [ChainRaw buf])
              (out20_size (length (buf_data buf))) = GST_FLOW_OK"
    using assms(5,6) by (simp add: length_group_a5 out20_size_10)
  show ?thesis
    by (simp add: chain_raw_20 [OF assms(1-4) L al] output_bytes_def Let_def log_event_def
          pushed_append buf_data_stamped assms(6) expand20_group_a5)
qed

theorem group_a5_output_witness:
  "\<exists>byte8.
     output_bytes (gst_dvdlpcmdec_chain_raw env_ok dec_20 (raw_buffer group_a5)) =
       [[0x11, 0x22, 0xA0, 0x33, 0x44, 0x50, 0x55, 0x66, byte8, 0x77, 0x88, 0xA0]]"
  using group_a5_output [of dec_20 env_ok "raw_buffer group_a5"]
  by (simp add: dec_20_fields env_ok_fields raw_buffer_def)

theorem group_a5_byte8_counterexample:
  "output_bytes (gst_dvdlpcmdec_chain_raw env_ok dec_20 (raw_buffer group_a5)) ! 0 ! 8 = 0x0A
   \<and> output_bytes (gst_dvdlpcmdec_chain_raw env_ok dec_20 (raw_buffer group_a5)) ! 0 ! 8 \<noteq> 0x05"
proof -
  have L: "length (buf_data (raw_buffer group_a5)) < 2 ^ 29"
    by (simp add: raw_buffer_def length_group_a5)
  have "output_bytes (gst_dvdlpcmdec_chain_raw env_ok dec_20 (raw_buffer group_a5)) =
          [[0x11, 0x22, 0xA0, 0x33, 0x44, 0x50, 0x55, 0x66, 0x0A, 0x77, 0x88, 0xA0]]"
    by (subst chain_raw_20 [OF dec_20_fields(1) _ _ _ L])
       (simp_all add: dec_20_fields env_ok_fields output_bytes_def Let_def log_event_def
          buf_data_stamped raw_buffer_def expand20_group_a5)
  then show ?thesis by simp
qed

section \<open>The 20-bit path on whole buffers\<close>

lemma copy20_overrun:
  "0 < n \<Longrightarrow> length dest < d + 12 \<Longrightarrow> copy20 n s d src dest = Inl OutOfBounds"
  by (cases n) (simp_all del: list_update.simps)

lemma overflow_sizes:
  "unat (ucast (ucast ((536870920 :: 32 word) * 8 div 20) * (3 :: 64 word)) :: 32 word) = 9"
  "unat (ucast ((536870920 :: 32 word) div 10) :: 64 word) = 53687092"
  by simp_all

text \<open>
  C2, at an input of 536870920 bytes (a multiple of 10): \<open>size * 8\<close> is computed in 32
  bits and wraps to 64, so the output buffer is requested with 9 bytes, while the loop
  runs 53687092 times and writes 12 bytes each time. The first iteration already writes
  outside the output buffer.
\<close>

theorem expand20_size_overflow:
  "gst_dvdlpcmdec_chain_raw env_ok dec_20 (raw_buffer (replicate 536870920 0)) = Inl OutOfBounds"
proof -
  have c: "copy20 53687092 0 0 (replicate 536870920 0) (map f [0..<9]) = Inl OutOfBounds" for f
    by (rule copy20_overrun) simp_all
  show ?thesis
    by (simp add: gst_dvdlpcmdec_chain_raw_def convert_switch_def convert20_def Let_def
          log_event_def dec_20_fields env_ok_fields raw_buffer_def GST_BUFFER_SIZE_def
          overflow_sizes c)
qed

lemma expand20_nth:
  assumes "k < length src div 10" "j < 12"
  shows "expand20_spec src fill ! (12 * k + j) = group20 src (10 * k) ! j"
proof -
  have a: "12 * k + j < 12 * (length src div 10)" using assms by simp
  also have "\<dots> \<le> out20_size (length src)" by (rule groups_fit)
  finally have b: "12 * k + j < out20_size (length src)" .
  have "(12 * k + j) div 12 = k" "(12 * k + j) mod 12 = j" using assms(2) by simp_all
  then show ?thesis using a b by (simp add: expand20_spec_def)
qed

lemma out20_size_multiple: "L mod 10 = 0 \<Longrightarrow> out20_size L = 12 * (L div 10)"
proof -
  assume "L mod 10 = 0"
  then have "10 dvd L" by (simp add: mod_eq_0_iff_dvd)
  then obtain q where q: "L = 10 * q" by (auto elim: dvdE)
  have "8 * (10 * q) div 20 = 4 * q" by simp
  then show ?thesis unfolding out20_size_def q by simp
qed

text \<open>
  Below \<open>2 ^ 29\<close> bytes, where \<open>size * 8\<close> does not wrap, the 20-bit path does what C2
  says: for an input whose length is a multiple of 10 it pushes a new buffer of one 12-byte
  group per 10-byte input group, with the bytes of the mapping table.
\<close>

lemma expand20_mapping:
  assumes w: "width dec = 20" "rate dec \<noteq> 0" "channels dec \<noteq> 0"
    and us: "pad_is_usable env (trace dec @ [ChainRaw buf])"
    and L: "length (buf_data buf) < 2 ^ 29"
    and al: "pad_alloc_buffer env (trace dec @ [ChainRaw buf])
               (out20_size (length (buf_data buf))) = GST_FLOW_OK"
    and m: "length (buf_data buf) mod 10 = 0"
  shows "\<exists>dest. output_bytes (gst_dvdlpcmdec_chain_raw env dec buf) =
                  map buf_data (pushed (trace dec)) @ [dest]
           \<and> length dest = 12 * (length (buf_data buf) div 10)
           \<and> (\<forall>k < length (buf_data buf) div 10.
                 dest ! (12 * k) = buf_data buf ! (10 * k)
               \<and> dest ! (12 * k + 1) = buf_data buf ! (10 * k + 1)
               \<and> dest ! (12 * k + 2) = buf_data buf ! (10 * k + 8) AND 0xF0
               \<and> dest ! (12 * k + 3) = buf_data buf ! (10 * k + 2)
               \<and> dest ! (12 * k + 4) = buf_data buf ! (10 * k + 3)
               \<and> dest ! (12 * k + 5) = push_bit 4 (buf_data buf ! (10 * k + 8) AND 0x0F)
               \<and> dest ! (12 * k + 6) = buf_data buf ! (10 * k + 4)
               \<and> dest ! (12 * k + 7) = buf_data buf ! (10 * k + 5)
               \<and> dest ! (12 * k + 8) = buf_data buf ! (10 * k + 9) AND 0x0F
               \<and> dest ! (12 * k + 9) = buf_data buf ! (10 * k + 6)
               \<and> dest ! (12 * k + 10) = buf_data buf ! (10 * k + 7)
               \<and> dest ! (12 * k + 11) = push_bit 4 (buf_data buf ! (10 * k + 9) AND 0x0F))"
proof -
  let ?src = "buf_data buf"
  let ?dest = "expand20_spec ?src (alloc_content env (trace dec @ [ChainRaw buf]))"
  have out: "output_bytes (gst_dvdlpcmdec_chain_raw env dec buf) =
               map buf_data (pushed (trace dec)) @ [?dest]"
    by (simp add: chain_raw_20 [OF w us L al] output_bytes_def Let_def log_event_def
          pushed_append buf_data_stamped)
  have len: "length ?dest = 12 * (length ?src div 10)"
    by (simp add: expand20_spec_def out20_size_multiple [OF m])
  have grp: "?dest ! (12 * k + j) = group20 ?src (10 * k) ! j"
    if "k < length ?src div 10" "j < 12" for k j
    using that by (rule expand20_nth)
  have "?dest ! (12 * k) = ?src ! (10 * k)
      \<and> ?dest ! (12 * k + 1) = ?src ! (10 * k + 1)
      \<and> ?dest ! (12 * k + 2) = ?src ! (10 * k + 8) AND 0xF0
      \<and> ?dest ! (12 * k + 3) = ?src ! (10 * k + 2)
      \<and> ?dest ! (12 * k + 4) = ?src ! (10 * k + 3)
      \<and> ?dest ! (12 * k + 5) = push_bit 4 (?src ! (10 * k + 8) AND 0x0F)
      \<and> ?dest ! (12 * k + 6) = ?src ! (10 * k + 4)
      \<and> ?dest ! (12 * k + 7) = ?src ! (10 * k + 5)
      \<and> ?dest ! (12 * k + 8) = ?src ! (10 * k + 9) AND 0x0F
      \<and> ?dest ! (12 * k + 9) = ?src ! (10 * k + 6)
      \<and> ?dest ! (12 * k + 10) = ?src ! (10 * k + 7)
      \<and> ?dest ! (12 * k + 11) = push_bit 4 (?src ! (10 * k + 9) AND 0x0F)"
    if k: "k < length ?src div 10" for k
  proof -
    note g = grp [OF k]
    have e0: "?dest ! (12 * k) = ?src ! (10 * k)"
      using g [of 0] by (simp add: group20_def)
    have e1: "?dest ! (12 * k + 1) = ?src ! (10 * k + 1)"
      using g [of 1] by (simp add: group20_def)
    have e2: "?dest ! (12 * k + 2) = ?src ! (10 * k + 8) AND 0xF0"
      using g [of 2] by (simp add: group20_def)
    have e3: "?dest ! (12 * k + 3) = ?src ! (10 * k + 2)"
      using g [of 3] by (simp add: group20_def)
    have e4: "?dest ! (12 * k + 4) = ?src ! (10 * k + 3)"
      using g [of 4] by (simp add: group20_def)
    have e5: "?dest ! (12 * k + 5) = push_bit 4 (?src ! (10 * k + 8) AND 0x0F)"
      using g [of 5] by (simp add: group20_def)
    have e6: "?dest ! (12 * k + 6) = ?src ! (10 * k + 4)"
      using g [of 6] by (simp add: group20_def)
    have e7: "?dest ! (12 * k + 7) = ?src ! (10 * k + 5)"
      using g [of 7] by (simp add: group20_def)
    have e8: "?dest ! (12 * k + 8) = ?src ! (10 * k + 9) AND 0x0F"
      using g [of 8] by (simp add: group20_def)
    have e9: "?dest ! (12 * k + 9) = ?src ! (10 * k + 6)"
      using g [of 9] by (simp add: group20_def)
    have e10: "?dest ! (12 * k + 10) = ?src ! (10 * k + 7)"
      using g [of 10] by (simp add: group20_def)
    have e11: "?dest ! (12 * k + 11) = push_bit 4 (?src ! (10 * k + 9) AND 0x0F)"
      using g [of 11] by (simp add: group20_def)
    from e0 e1 e2 e3 e4 e5 e6 e7 e8 e9 e10 e11 show ?thesis by (intro conjI)
  qed
  with out len show ?thesis by blast
qed

section \<open>Timestamps\<close>

text \<open>\<open>update_timestamps\<close> itself: the duration is \<open>samples * GST_SECOND / rate\<close>; a
  valid timestamp overwrites the cursor, otherwise the cursor advances by the duration
  and stamps the buffer.\<close>

lemma update_timestamps_cursor:
  assumes "rate dec \<noteq> 0"
  shows "\<exists>dec' buf'.
     update_timestamps env dec buf samples = Inr (dec', buf')
     \<and> buf_duration buf' = word_of_int ((sint samples * GST_SECOND env) sdiv sint (rate dec))
     \<and> (if buf_timestamp buf \<noteq> GST_CLOCK_TIME_NONE
          then timestamp dec' = buf_timestamp buf \<and> buf_timestamp buf' = buf_timestamp buf
          else timestamp dec' = timestamp dec + buf_duration buf'
               \<and> buf_timestamp buf' = timestamp dec')"
  using assms
  by (simp add: update_timestamps_def Let_def GST_BUFFER_TIMESTAMP_IS_VALID_def)

lemma sdiv_nonneg:
  "0 \<le> a \<Longrightarrow> 0 < b \<Longrightarrow> (a :: int) sdiv b = a div b"
  by (simp add: signed_divide_int_def sgn_if)

lemma dec_20_explicit:
  "dec_20 = \<lparr>rate = 48000, channels = 2, width = 20, out_width = 24, dynamic_range = 0,
                emphasis = False, mute = False, timestamp = 0, header = 0,
                srcpad_caps = None, trace = []\<rparr>"
  by (simp add: dec_20_def parse_header_def dec_init_def Let_def)

lemma dec_16_explicit:
  "dec_16 = \<lparr>rate = 48000, channels = 2, width = 16, out_width = 16, dynamic_range = 0,
                emphasis = False, mute = False, timestamp = 0, header = 0,
                srcpad_caps = None, trace = []\<rparr>"
  by (simp add: dec_16_def parse_header_def dec_init_def Let_def)

text \<open>
  C8, at a 20-bit chunk: ten bytes for two channels are two samples per channel, at
  48000 Hz a duration of 41666 ns. The tail of \<open>gst_dvdlpcmdec_chain_raw\<close> passes the
  function's own \<open>samples\<close>, which the 20-bit case never sets, so the pushed buffer has
  duration 0 and the cursor stays where it was.
\<close>

theorem twenty_bit_chunk_duration_zero:
  "gst_dvdlpcmdec_chain_raw env_ok dec_20 (raw_buffer group_a5) =
     Inr (GST_FLOW_OK,
          dec_20\<lparr>timestamp := 0,
                 trace := [ChainRaw (raw_buffer group_a5),
                           AllocBuffer 12 GST_FLOW_OK,
                           Push \<lparr>buf_data = [0x11, 0x22, 0xA0, 0x33, 0x44, 0x50,
                                              0x55, 0x66, 0x0A, 0x77, 0x88, 0xA0],
                                  buf_timestamp = 0, buf_duration = 0, buf_caps = None\<rparr>
                             GST_FLOW_OK]\<rparr>)"
proof -
  have L: "length (buf_data (raw_buffer group_a5)) < 2 ^ 29"
    by (simp add: raw_buffer_def length_group_a5)
  show ?thesis
    by (subst chain_raw_20 [OF dec_20_fields(1) _ _ _ L])
       (simp_all add: dec_20_fields env_ok_fields Let_def log_event_def stamped_def
          raw_buffer_def expand20_group_a5 length_group_a5 out20_size_10
          GST_CLOCK_TIME_NONE_def)
qed

text \<open>The 16-bit path, for comparison: eight bytes for two channels are two samples per
  channel; the chunk gets the duration 41666 ns and the cursor advances by it.\<close>

lemma sixteen_bit_chunk_duration:
  "gst_dvdlpcmdec_chain_raw env_ok dec_16 (raw_buffer [1, 2, 3, 4, 5, 6, 7, 8]) =
     Inr (GST_FLOW_OK,
          dec_16\<lparr>timestamp := 41666,
                 trace := [ChainRaw (raw_buffer [1, 2, 3, 4, 5, 6, 7, 8]),
                           Push \<lparr>buf_data = [1, 2, 3, 4, 5, 6, 7, 8],
                                  buf_timestamp = 41666, buf_duration = 41666,
                                  buf_caps = None\<rparr>
                             GST_FLOW_OK]\<rparr>)"
  by (subst chain_raw_16 [OF dec_16_fields(1)])
     (simp_all add: dec_16_fields env_ok_fields Let_def log_event_def stamped_def
        raw_buffer_def GST_CLOCK_TIME_NONE_def GST_BUFFER_SIZE_def sdiv_nonneg)

section \<open>The 24-bit path on whole buffers\<close>

lemma length_reorder24_spec: "length (reorder24_spec src) = length src"
  by (simp add: reorder24_spec_def)

lemma reorder24_nth:
  assumes "k < length src div 12" "j < 12"
  shows "reorder24_spec src ! (12 * k + j) = src ! (12 * k + perm24 j)"
proof -
  have a: "12 * k + j < 12 * (length src div 12)" using assms by simp
  also have "\<dots> \<le> length src" by simp
  finally have b: "12 * k + j < length src" .
  have "(12 * k + j) div 12 = k" "(12 * k + j) mod 12 = j" using assms(2) by simp_all
  then show ?thesis using a b by (simp add: reorder24_spec_def)
qed

lemma reorder24_twice_nth:
  assumes "k < length src div 12" "j < 12"
  shows "reorder24_spec (reorder24_spec src) ! (12 * k + j) = src ! (12 * k + perm24 (perm24 j))"
proof -
  have k': "k < length (reorder24_spec src) div 12"
    using assms(1) by (simp add: length_reorder24_spec)
  have "reorder24_spec (reorder24_spec src) ! (12 * k + j)
          = reorder24_spec src ! (12 * k + perm24 j)"
    by (rule reorder24_nth [OF k' assms(2)])
  also have "\<dots> = src ! (12 * k + perm24 (perm24 j))"
    by (rule reorder24_nth [OF assms(1) perm24_lt [OF assms(2)]])
  finally show ?thesis .
qed

lemma perm24_values:
  "perm24 0 = 0" "perm24 1 = 1" "perm24 2 = 8" "perm24 3 = 2" "perm24 4 = 3" "perm24 5 = 9"
  "perm24 6 = 4" "perm24 7 = 5" "perm24 8 = 10" "perm24 9 = 6" "perm24 10 = 7" "perm24 11 = 11"
  "perm24 (Suc 0) = 1"
  by (simp_all add: perm24_def)

lemma reorder24_ramp12: "reorder24_spec ramp12 = [0, 1, 8, 2, 3, 9, 4, 5, 10, 6, 7, 11]"
proof -
  have k: "0 < length ramp12 div 12" by (simp add: ramp12_def)
  note g = reorder24_nth [OF k, simplified]
  show ?thesis
    by (rule list12_eqI)
       (simp_all add: length_reorder24_spec g perm24_values, simp_all add: ramp12_def)
qed

lemma reorder24_twice_ramp12:
  "reorder24_spec (reorder24_spec ramp12) = [0, 1, 10, 8, 2, 6, 3, 9, 7, 4, 5, 11]"
proof -
  have k: "0 < length ramp12 div 12" by (simp add: ramp12_def)
  note g = reorder24_twice_nth [OF k, simplified]
  show ?thesis
    by (rule list12_eqI)
       (simp_all add: length_reorder24_spec g perm24_values, simp_all add: ramp12_def)
qed

text \<open>
  C4. For a buffer whose length is a multiple of 12, the 24-bit path pushes the bytes of
  \<open>reorder24_spec\<close>, the mapping applied to the untouched input: in every 12-byte group
  bytes 0, 1 and 11 stay and bytes 2..10 become the original bytes 8, 2, 3, 9, 4, 5, 10, 6,
  7 of that group, although the loop works in place. Applying the mapping a second time
  puts the original bytes 10, 8, 2, 6, 3, 9, 7, 4, 5 at the positions 2..10, which is not
  the original order: on the group \<open>0, 1, ..., 11\<close> the result differs from the input.
\<close>

theorem reorder24_in_place:
  assumes w: "width dec = 24" "rate dec \<noteq> 0" "channels dec \<noteq> 0"
    and us: "pad_is_usable env (trace dec @ [ChainRaw buf])"
    and L: "length (buf_data buf) < 2 ^ 32"
    and m: "length (buf_data buf) mod 12 = 0"
  shows "output_bytes (gst_dvdlpcmdec_chain_raw env dec buf) =
           map buf_data (pushed (trace dec)) @ [reorder24_spec (buf_data buf)]
       \<and> length (reorder24_spec (buf_data buf)) = length (buf_data buf)
       \<and> (\<forall>k < length (buf_data buf) div 12.
              reorder24_spec (buf_data buf) ! (12 * k) = buf_data buf ! (12 * k)
            \<and> reorder24_spec (buf_data buf) ! (12 * k + 1) = buf_data buf ! (12 * k + 1)
            \<and> reorder24_spec (buf_data buf) ! (12 * k + 2) = buf_data buf ! (12 * k + 8)
            \<and> reorder24_spec (buf_data buf) ! (12 * k + 3) = buf_data buf ! (12 * k + 2)
            \<and> reorder24_spec (buf_data buf) ! (12 * k + 4) = buf_data buf ! (12 * k + 3)
            \<and> reorder24_spec (buf_data buf) ! (12 * k + 5) = buf_data buf ! (12 * k + 9)
            \<and> reorder24_spec (buf_data buf) ! (12 * k + 6) = buf_data buf ! (12 * k + 4)
            \<and> reorder24_spec (buf_data buf) ! (12 * k + 7) = buf_data buf ! (12 * k + 5)
            \<and> reorder24_spec (buf_data buf) ! (12 * k + 8) = buf_data buf ! (12 * k + 10)
            \<and> reorder24_spec (buf_data buf) ! (12 * k + 9) = buf_data buf ! (12 * k + 6)
            \<and> reorder24_spec (buf_data buf) ! (12 * k + 10) = buf_data buf ! (12 * k + 7)
            \<and> reorder24_spec (buf_data buf) ! (12 * k + 11) = buf_data buf ! (12 * k + 11))
       \<and> (\<forall>k < length (buf_data buf) div 12.
              reorder24_spec (reorder24_spec (buf_data buf)) ! (12 * k + 2) = buf_data buf ! (12 * k + 10)
            \<and> reorder24_spec (reorder24_spec (buf_data buf)) ! (12 * k + 3) = buf_data buf ! (12 * k + 8)
            \<and> reorder24_spec (reorder24_spec (buf_data buf)) ! (12 * k + 4) = buf_data buf ! (12 * k + 2)
            \<and> reorder24_spec (reorder24_spec (buf_data buf)) ! (12 * k + 5) = buf_data buf ! (12 * k + 6)
            \<and> reorder24_spec (reorder24_spec (buf_data buf)) ! (12 * k + 6) = buf_data buf ! (12 * k + 3)
            \<and> reorder24_spec (reorder24_spec (buf_data buf)) ! (12 * k + 7) = buf_data buf ! (12 * k + 9)
            \<and> reorder24_spec (reorder24_spec (buf_data buf)) ! (12 * k + 8) = buf_data buf ! (12 * k + 7)
            \<and> reorder24_spec (reorder24_spec (buf_data buf)) ! (12 * k + 9) = buf_data buf ! (12 * k + 4)
            \<and> reorder24_spec (reorder24_spec (buf_data buf)) ! (12 * k + 10) = buf_data buf ! (12 * k + 5))
       \<and> reorder24_spec (reorder24_spec ramp12) \<noteq> ramp12"
proof -
  let ?src = "buf_data buf"
  have out: "output_bytes (gst_dvdlpcmdec_chain_raw env dec buf) =
               map buf_data (pushed (trace dec)) @ [reorder24_spec ?src]"
    by (simp add: chain_raw_24 [OF w us L] output_bytes_def Let_def log_event_def
          pushed_append buf_data_stamped)
  have once: "reorder24_spec (buf_data buf) ! (12 * k) = buf_data buf ! (12 * k)
            \<and> reorder24_spec (buf_data buf) ! (12 * k + 1) = buf_data buf ! (12 * k + 1)
            \<and> reorder24_spec (buf_data buf) ! (12 * k + 2) = buf_data buf ! (12 * k + 8)
            \<and> reorder24_spec (buf_data buf) ! (12 * k + 3) = buf_data buf ! (12 * k + 2)
            \<and> reorder24_spec (buf_data buf) ! (12 * k + 4) = buf_data buf ! (12 * k + 3)
            \<and> reorder24_spec (buf_data buf) ! (12 * k + 5) = buf_data buf ! (12 * k + 9)
            \<and> reorder24_spec (buf_data buf) ! (12 * k + 6) = buf_data buf ! (12 * k + 4)
            \<and> reorder24_spec (buf_data buf) ! (12 * k + 7) = buf_data buf ! (12 * k + 5)
            \<and> reorder24_spec (buf_data buf) ! (12 * k + 8) = buf_data buf ! (12 * k + 10)
            \<and> reorder24_spec (buf_data buf) ! (12 * k + 9) = buf_data buf ! (12 * k + 6)
            \<and> reorder24_spec (buf_data buf) ! (12 * k + 10) = buf_data buf ! (12 * k + 7)
            \<and> reorder24_spec (buf_data buf) ! (12 * k + 11) = buf_data buf ! (12 * k + 11)"
    if k: "k < length ?src div 12" for k
  proof -
    note g = reorder24_nth [OF k]
    have e0: "reorder24_spec (buf_data buf) ! (12 * k) = buf_data buf ! (12 * k)"
      using g [of 0] by (simp add: perm24_values)
    have e1: "reorder24_spec (buf_data buf) ! (12 * k + 1) = buf_data buf ! (12 * k + 1)"
      using g [of 1] by (simp add: perm24_values)
    have e2: "reorder24_spec (buf_data buf) ! (12 * k + 2) = buf_data buf ! (12 * k + 8)"
      using g [of 2] by (simp add: perm24_values)
    have e3: "reorder24_spec (buf_data buf) ! (12 * k + 3) = buf_data buf ! (12 * k + 2)"
      using g [of 3] by (simp add: perm24_values)
    have e4: "reorder24_spec (buf_data buf) ! (12 * k + 4) = buf_data buf ! (12 * k + 3)"
      using g [of 4] by (simp add: perm24_values)
    have e5: "reorder24_spec (buf_data buf) ! (12 * k + 5) = buf_data buf ! (12 * k + 9)"
      using g [of 5] by (simp add: perm24_values)
    have e6: "reorder24_spec (buf_data buf) ! (12 * k + 6) = buf_data buf ! (12 * k + 4)"
      using g [of 6] by (simp add: perm24_values)
    have e7: "reorder24_spec (buf_data buf) ! (12 * k + 7) = buf_data buf ! (12 * k + 5)"
      using g [of 7] by (simp add: perm24_values)
    have e8: "reorder24_spec (buf_data buf) ! (12 * k + 8) = buf_data buf ! (12 * k + 10)"
      using g [of 8] by (simp add: perm24_values)
    have e9: "reorder24_spec (buf_data buf) ! (12 * k + 9) = buf_data buf ! (12 * k + 6)"
      using g [of 9] by (simp add: perm24_values)
    have e10: "reorder24_spec (buf_data buf) ! (12 * k + 10) = buf_data buf ! (12 * k + 7)"
      using g [of 10] by (simp add: perm24_values)
    have e11: "reorder24_spec (buf_data buf) ! (12 * k + 11) = buf_data buf ! (12 * k + 11)"
      using g [of 11] by (simp add: perm24_values)
    from e0 e1 e2 e3 e4 e5 e6 e7 e8 e9 e10 e11 show ?thesis by (intro conjI)
  qed
  have twice: "reorder24_spec (reorder24_spec (buf_data buf)) ! (12 * k + 2) = buf_data buf ! (12 * k + 10)
            \<and> reorder24_spec (reorder24_spec (buf_data buf)) ! (12 * k + 3) = buf_data buf ! (12 * k + 8)
            \<and> reorder24_spec (reorder24_spec (buf_data buf)) ! (12 * k + 4) = buf_data buf ! (12 * k + 2)
            \<and> reorder24_spec (reorder24_spec (buf_data buf)) ! (12 * k + 5) = buf_data buf ! (12 * k + 6)
            \<and> reorder24_spec (reorder24_spec (buf_data buf)) ! (12 * k + 6) = buf_data buf ! (12 * k + 3)
            \<and> reorder24_spec (reorder24_spec (buf_data buf)) ! (12 * k + 7) = buf_data buf ! (12 * k + 9)
            \<and> reorder24_spec (reorder24_spec (buf_data buf)) ! (12 * k + 8) = buf_data buf ! (12 * k + 7)
            \<and> reorder24_spec (reorder24_spec (buf_data buf)) ! (12 * k + 9) = buf_data buf ! (12 * k + 4)
            \<and> reorder24_spec (reorder24_spec (buf_data buf)) ! (12 * k + 10) = buf_data buf ! (12 * k + 5)"
    if k: "k < length ?src div 12" for k
  proof -
    note g = reorder24_twice_nth [OF k]
    have e2: "reorder24_spec (reorder24_spec (buf_data buf)) ! (12 * k + 2) = buf_data buf ! (12 * k + 10)"
      using g [of 2] by (simp add: perm24_values)
    have e3: "reorder24_spec (reorder24_spec (buf_data buf)) ! (12 * k + 3) = buf_data buf ! (12 * k + 8)"
      using g [of 3] by (simp add: perm24_values)
    have e4: "reorder24_spec (reorder24_spec (buf_data buf)) ! (12 * k + 4) = buf_data buf ! (12 * k + 2)"
      using g [of 4] by (simp add: perm24_values)
    have e5: "reorder24_spec (reorder24_spec (buf_data buf)) ! (12 * k + 5) = buf_data buf ! (12 * k + 6)"
      using g [of 5] by (simp add: perm24_values)
    have e6: "reorder24_spec (reorder24_spec (buf_data buf)) ! (12 * k + 6) = buf_data buf ! (12 * k + 3)"
      using g [of 6] by (simp add: perm24_values)
    have e7: "reorder24_spec (reorder24_spec (buf_data buf)) ! (12 * k + 7) = buf_data buf ! (12 * k + 9)"
      using g [of 7] by (simp add: perm24_values)
    have e8: "reorder24_spec (reorder24_spec (buf_data buf)) ! (12 * k + 8) = buf_data buf ! (12 * k + 7)"
      using g [of 8] by (simp add: perm24_values)
    have e9: "reorder24_spec (reorder24_spec (buf_data buf)) ! (12 * k + 9) = buf_data buf ! (12 * k + 4)"
      using g [of 9] by (simp add: perm24_values)
    have e10: "reorder24_spec (reorder24_spec (buf_data buf)) ! (12 * k + 10) = buf_data buf ! (12 * k + 5)"
      using g [of 10] by (simp add: perm24_values)
    from e2 e3 e4 e5 e6 e7 e8 e9 e10 show ?thesis by (intro conjI)
  qed
  have ne: "reorder24_spec (reorder24_spec ramp12) \<noteq> ramp12"
    unfolding reorder24_twice_ramp12 by (simp add: ramp12_def)
  from out once twice ne show ?thesis
    by (simp add: length_reorder24_spec)
qed

theorem reorder24_in_place_witness:
  "output_bytes (gst_dvdlpcmdec_chain_raw env_ok dec_24 (raw_buffer ramp12)) =
     [[0, 1, 8, 2, 3, 9, 4, 5, 10, 6, 7, 11]]
   \<and> reorder24_spec (reorder24_spec ramp12) ! 2 = ramp12 ! 10"
proof -
  have h: "length (buf_data (raw_buffer ramp12)) < 2 ^ 32"
          "length (buf_data (raw_buffer ramp12)) mod 12 = 0"
          "pad_is_usable env_ok (trace dec_24 @ [ChainRaw (raw_buffer ramp12)])"
    by (simp_all add: raw_buffer_def ramp12_def env_ok_fields)
  have r: "rate dec_24 \<noteq> 0" "channels dec_24 \<noteq> 0" by (simp_all add: dec_24_fields)
  have k: "0 < length (buf_data (raw_buffer ramp12)) div 12"
    by (simp add: raw_buffer_def ramp12_def)
  note t = reorder24_in_place [OF dec_24_fields(1) r h(3) h(1) h(2)]
  have a: "output_bytes (gst_dvdlpcmdec_chain_raw env_ok dec_24 (raw_buffer ramp12)) =
             [[0, 1, 8, 2, 3, 9, 4, 5, 10, 6, 7, 11]]"
    using t [THEN conjunct1]
    by (simp add: dec_24_fields) (simp add: raw_buffer_def reorder24_ramp12)
  have b: "reorder24_spec (reorder24_spec ramp12) ! 2 = ramp12 ! 10"
    using t [THEN conjunct2, THEN conjunct2, THEN conjunct2, THEN conjunct1,
             rule_format, OF k, THEN conjunct1]
    by (simp add: raw_buffer_def numeral_2_eq_2)
  from a b show ?thesis by (rule conjI)
qed

section \<open>Payloads that are not a whole number of frames\<close>

text \<open>
  C9, as amended. The converter has no check of the payload length against the frame
  size and no error for it: on a negotiated stream of 16, 20 or 24 bits and a usable pad
  (for 20 bits: with the output buffer obtained) a payload of any length below
  \<open>2 ^ 29\<close> bytes, a whole number of frames or not, is converted without a trap and
  pushed as exactly one buffer, and the call returns what the push returned (the last
  event of the trace is that push with the returned value). The 16-bit
  path pushes the bytes as they are, the 24-bit path reorders the whole 12-byte groups
  and leaves the rest, the 20-bit path expands the whole 10-byte groups. On the 16-bit
  and the 24-bit path the sample count is the truncated quotient of the length by the
  channels and by 2 or 3 bytes: the duration of the pushed buffer is that count times
  \<open>GST_SECOND\<close> divided by the rate. Nothing is said of the sample count of the 20-bit
  path.
\<close>

theorem any_length_is_pushed:
  assumes r: "rate dec \<noteq> 0" and ch: "channels dec \<noteq> 0"
    and us: "pad_is_usable env (trace dec @ [ChainRaw buf])"
    and L: "length (buf_data buf) < 2 ^ 29"
    and w: "width dec = 16 \<or> width dec = 24 \<or>
            (width dec = 20 \<and>
             pad_alloc_buffer env (trace dec @ [ChainRaw buf])
               (out20_size (length (buf_data buf))) = GST_FLOW_OK)"
  shows "\<exists>ret dec' out.
           gst_dvdlpcmdec_chain_raw env dec buf = Inr (ret, dec')
         \<and> pushed (trace dec') = pushed (trace dec) @ [out]
         \<and> last (trace dec') = Push out ret
         \<and> buf_data out =
             (if width dec = 16 then buf_data buf
              else if width dec = 24 then reorder24_spec (buf_data buf)
              else expand20_spec (buf_data buf)
                     (alloc_content env (trace dec @ [ChainRaw buf])))
         \<and> (width dec \<noteq> 20 \<longrightarrow>
               buf_duration out =
                 word_of_int
                   ((sint (GST_BUFFER_SIZE buf div channels dec
                             div (if width dec = 16 then 2 else 3))
                     * GST_SECOND env) sdiv sint (rate dec)))"
proof -
  have L32: "length (buf_data buf) < 2 ^ 32" using L by simp
  from w consider (a) "width dec = 16" | (b) "width dec = 24"
    | (c) "width dec = 20"
          "pad_alloc_buffer env (trace dec @ [ChainRaw buf])
             (out20_size (length (buf_data buf))) = GST_FLOW_OK"
    by blast
  then show ?thesis
  proof cases
    case a
    show ?thesis
      by (simp add: chain_raw_16 [OF a r ch us] Let_def log_event_def pushed_append
            buf_data_stamped buf_duration_stamped a)
  next
    case b
    show ?thesis
      by (simp add: chain_raw_24 [OF b r ch us L32] Let_def log_event_def pushed_append
            buf_data_stamped buf_duration_stamped GST_BUFFER_SIZE_def b)
  next
    case c
    show ?thesis
      by (simp add: chain_raw_20 [OF c(1) r ch us L c(2)] Let_def log_event_def pushed_append
            buf_data_stamped c(1))
  qed
qed

theorem any_length_is_pushed_witness:
  "length [1, 2, 3, 4, 5, 6, 7 :: guint8] mod (2 * 2) \<noteq> 0
   \<and> (\<exists>ret dec' out.
         gst_dvdlpcmdec_chain_raw env_ok dec_16 (raw_buffer [1, 2, 3, 4, 5, 6, 7]) =
           Inr (ret, dec')
       \<and> pushed (trace dec') = [out] \<and> last (trace dec') = Push out ret
       \<and> buf_data out = [1, 2, 3, 4, 5, 6, 7]
       \<and> buf_duration out = 20833)"
  using any_length_is_pushed [of dec_16 env_ok "raw_buffer [1, 2, 3, 4, 5, 6, 7]"]
  by (simp add: dec_16_fields env_ok_fields raw_buffer_def GST_BUFFER_SIZE_def sdiv_nonneg)

theorem partial_frame_counterexample:
  "length [1, 2, 3 :: guint8] mod (2 * 2) \<noteq> 0
   \<and> gst_dvdlpcmdec_chain_raw env_ok dec_16 (raw_buffer [1, 2, 3]) =
     Inr (GST_FLOW_OK,
          dec_16\<lparr>timestamp := 0,
                 trace := [ChainRaw (raw_buffer [1, 2, 3]),
                           Push \<lparr>buf_data = [1, 2, 3], buf_timestamp = 0,
                                  buf_duration = 0, buf_caps = None\<rparr>
                             GST_FLOW_OK]\<rparr>)"
  by (subst chain_raw_16 [OF dec_16_fields(1)])
     (simp_all add: dec_16_fields env_ok_fields Let_def log_event_def stamped_def
        raw_buffer_def GST_CLOCK_TIME_NONE_def GST_BUFFER_SIZE_def sdiv_nonneg)

section \<open>What a call of the converter adds to the trace\<close>

lemma convert_switch_effect:
  assumes "convert_switch env dec buf = Inr sr"
  shows "\<exists>d es. (sr = Leave (case sr of Leave r _ \<Rightarrow> r | Tail _ _ _ \<Rightarrow> GST_FLOW_OK) d
                  \<or> (\<exists>b s. sr = Tail d b s))
              \<and> trace d = trace dec @ es \<and> forwarded es = [] \<and> negotiations es = []
              \<and> header d = header dec \<and> rate d = rate dec"
  using assms
  by (auto simp: convert_switch_def convert20_def Let_def log_event_def
           split: if_splits sum.splits)

lemma update_timestamps_effect:
  assumes "update_timestamps env dec buf samples = Inr (dec', buf')"
  shows "trace dec' = trace dec \<and> header dec' = header dec"
  using assms
  by (auto simp: update_timestamps_def Let_def split: if_splits)

lemma chain_raw_effect:
  assumes "gst_dvdlpcmdec_chain_raw env dec buf = Inr (ret, dec')"
  shows "\<exists>es. trace dec' = trace dec @ ChainRaw buf # es
              \<and> forwarded es = [] \<and> negotiations es = []"
    and "header dec' = header dec"
proof -
  let ?d1 = "log_event (ChainRaw buf) dec"
  have t1: "trace ?d1 = trace dec @ [ChainRaw buf]" "header ?d1 = header dec"
    by (simp_all add: log_event_def)
  have "(\<exists>es. trace dec' = trace dec @ ChainRaw buf # es
              \<and> forwarded es = [] \<and> negotiations es = []) \<and> header dec' = header dec"
  proof (cases "rate dec = 0 \<or> \<not> pad_is_usable env (trace dec @ [ChainRaw buf])")
    case True
    then show ?thesis using assms
      by (auto simp: gst_dvdlpcmdec_chain_raw_def Let_def log_event_def split: if_splits)
  next
    case False
    then obtain sr where sw: "convert_switch env ?d1 buf = Inr sr"
      using assms
      by (auto simp: gst_dvdlpcmdec_chain_raw_def Let_def log_event_def split: sum.splits)
    from convert_switch_effect [OF sw] obtain d es where
      d: "(\<exists>r. sr = Leave r d) \<or> (\<exists>b s. sr = Tail d b s)"
      and es: "trace d = trace ?d1 @ es" "forwarded es = []" "negotiations es = []"
              "header d = header ?d1"
      by blast
    from d show ?thesis
    proof
      assume "\<exists>r. sr = Leave r d"
      then obtain r where "sr = Leave r d" ..
      then have "dec' = d" using assms False sw
        by (auto simp: gst_dvdlpcmdec_chain_raw_def Let_def log_event_def)
      then show ?thesis using es t1 by simp
    next
      assume "\<exists>b s. sr = Tail d b s"
      then obtain b s where sr: "sr = Tail d b s" by blast
      obtain d2 b2 where ut:
        "update_timestamps env d (b\<lparr>buf_caps := srcpad_caps d\<rparr>) s = Inr (d2, b2)"
        and fin: "dec' = log_event (Push b2 (pad_push env (trace d2) b2)) d2"
        using assms False sw sr
        by (auto simp: gst_dvdlpcmdec_chain_raw_def Let_def log_event_def
                 split: sum.splits prod.splits)
      from update_timestamps_effect [OF ut] have "trace d2 = trace d" "header d2 = header d"
        by simp_all
      then show ?thesis using es t1 fin
        by (simp add: log_event_def forwarded_append negotiations_append)
    qed
  qed
  then show "\<exists>es. trace dec' = trace dec @ ChainRaw buf # es
              \<and> forwarded es = [] \<and> negotiations es = []"
    and "header dec' = header dec" by blast+
qed

section \<open>The framer\<close>

lemma first_access_16_bits: "take_bit 16 (first_access_of data) = first_access_of data"
  unfolding first_access_of_def
  by (rule bit_word_eqI) (auto simp: bit_simps dest: bit_imp_le_length)

lemma first_access_bound: "unat (first_access_of data) < 65536"
proof -
  have "unat (take_bit 16 (first_access_of data)) = take_bit 16 (unat (first_access_of data))"
    by (simp only: unsigned_take_bit_eq)
  also have "\<dots> < 2 ^ 16" by (rule take_bit_nat_less_exp)
  finally show ?thesis by (simp only: first_access_16_bits) simp
qed

lemma small_word_positive:
  assumes "w \<noteq> 0" "unat (w :: 32 word) < 2 ^ 31"
  shows "0 <s w"
proof -
  have "int (unat w) < int (2 ^ 31)" using assms(2) by (simp only: of_nat_less_iff)
  moreover have "int (unat w) = uint w" by (rule of_nat_unat)
  ultimately have lt: "uint w < 2 ^ 31" by simp
  have ge: "- (2 ^ 31) \<le> uint w" by (rule order_trans [of _ 0]) simp_all
  have "sint w = signed_take_bit 31 (uint w)" by (simp add: sint_uint)
  also have "\<dots> = uint w" using ge lt by (rule signed_take_bit_int_eq_self)
  finally have "sint w = uint w" .
  moreover have "0 < uint w" using assms(1) by (simp add: word_neq_0_conv word_less_def)
  ultimately show ?thesis by (simp add: word_sless_alt)
qed

lemma first_len_facts:
  assumes "4 < first_access_of data"
  shows "0 <s first_access_of data - 4"
    and "unat (first_access_of data - 4) = unat (first_access_of data) - 4"
    and "unat (5 + (first_access_of data - 4)) = unat (first_access_of data) + 1"
proof -
  let ?fa = "first_access_of data"
  have le: "4 \<le> ?fa" using assms by simp
  have gt: "4 < unat ?fa" using assms by (simp add: word_less_nat_alt)
  show u: "unat (?fa - 4) = unat ?fa - 4" using unat_sub [OF le] by simp
  have "?fa - 4 \<noteq> 0" using u gt by (metis diff_is_0_eq not_le unat_0)
  moreover have "unat (?fa - 4) < 2 ^ 31" using u first_access_bound [of data] by simp
  ultimately show "0 <s ?fa - 4" by (rule small_word_positive)
  have "5 + (?fa - 4) = ?fa + 1" by simp
  moreover have "unat (?fa + 1) = unat ?fa + 1"
    using first_access_bound [of data] by (simp add: unat_word_ariths)
  ultimately show "unat (5 + (?fa - 4)) = unat ?fa + 1" by (simp only:)
qed

lemma create_sub_first:
  assumes "4 < first_access_of (buf_data buf)"
    and "unat (first_access_of (buf_data buf)) + 1 \<le> length (buf_data buf)"
  shows "gst_buffer_create_sub buf 5 (first_access_of (buf_data buf) - 4) =
           Some \<lparr>buf_data = take (unat (first_access_of (buf_data buf)) - 4)
                                (drop 5 (buf_data buf)),
                  buf_timestamp = GST_CLOCK_TIME_NONE,
                  buf_duration = GST_CLOCK_TIME_NONE,
                  buf_caps = buf_caps buf\<rparr>"
proof -
  have gt: "4 < unat (first_access_of (buf_data buf))"
    using assms(1) by (simp add: word_less_nat_alt)
  show ?thesis
    using assms(2) gt
    by (simp add: gst_buffer_create_sub_def first_len_facts(2) [OF assms(1)])
qed

lemma create_sub_second:
  assumes "4 < first_access_of (buf_data buf)"
    and "unat (first_access_of (buf_data buf)) + 1 \<le> length (buf_data buf)"
    and "length (buf_data buf) < 2 ^ 32"
  shows "gst_buffer_create_sub buf (5 + (first_access_of (buf_data buf) - 4))
           (GST_BUFFER_SIZE buf - (5 + (first_access_of (buf_data buf) - 4))) =
           Some \<lparr>buf_data = drop (unat (first_access_of (buf_data buf)) + 1) (buf_data buf),
                  buf_timestamp = GST_CLOCK_TIME_NONE,
                  buf_duration = GST_CLOCK_TIME_NONE,
                  buf_caps = buf_caps buf\<rparr>"
proof -
  let ?off = "5 + (first_access_of (buf_data buf) - 4)"
  have off: "unat ?off = unat (first_access_of (buf_data buf)) + 1"
    by (rule first_len_facts(3) [OF assms(1)])
  have size: "unat (GST_BUFFER_SIZE buf) = length (buf_data buf)"
    using assms(3) by (simp add: GST_BUFFER_SIZE_def unat_of_nat)
  have "?off \<le> GST_BUFFER_SIZE buf"
    using off size assms(2) by (simp only: word_le_nat_alt)
  then have len: "unat (GST_BUFFER_SIZE buf - ?off) =
                    length (buf_data buf) - (unat (first_access_of (buf_data buf)) + 1)"
    using unat_sub [of ?off "GST_BUFFER_SIZE buf"] off size by (simp only:)
  show ?thesis
    unfolding gst_buffer_create_sub_def off len using assms(2) by simp
qed

lemma create_sub_single:
  assumes "5 \<le> length (buf_data buf)" "length (buf_data buf) < 2 ^ 32"
  shows "gst_buffer_create_sub buf 5 (GST_BUFFER_SIZE buf - 5) =
           Some \<lparr>buf_data = drop 5 (buf_data buf),
                  buf_timestamp = GST_CLOCK_TIME_NONE,
                  buf_duration = GST_CLOCK_TIME_NONE,
                  buf_caps = buf_caps buf\<rparr>"
proof -
  have size: "unat (GST_BUFFER_SIZE buf) = length (buf_data buf)"
    using assms(2) by (simp add: GST_BUFFER_SIZE_def unat_of_nat)
  have "(5 :: 32 word) \<le> GST_BUFFER_SIZE buf"
    using size assms(1) by (simp add: word_le_nat_alt)
  then have len: "unat (GST_BUFFER_SIZE buf - 5) = length (buf_data buf) - 5"
    using unat_sub [of 5 "GST_BUFFER_SIZE buf"] size by simp
  show ?thesis
    unfolding gst_buffer_create_sub_def len using assms(1) by simp
qed

lemma chain_dvd_failed:
  assumes "5 \<le> length (buf_data buf)"
    and "check_header env dec (header_of (buf_data buf)) = (dec1, False)"
  shows "gst_dvdlpcmdec_chain_dvd env dec buf = Inr (GST_FLOW_ERROR, dec1)"
  using assms by (simp add: gst_dvdlpcmdec_chain_dvd_def Let_def)

lemma chain_dvd_single:
  assumes "5 \<le> length (buf_data buf)" "length (buf_data buf) < 2 ^ 32"
    and "check_header env dec (header_of (buf_data buf)) = (dec1, True)"
    and "\<not> 4 < first_access_of (buf_data buf)"
  shows "gst_dvdlpcmdec_chain_dvd env dec buf =
           gst_dvdlpcmdec_chain_raw env dec1 (whole_payload buf)"
  using assms(1,3,4) create_sub_single [OF assms(1,2)]
  by (simp add: gst_dvdlpcmdec_chain_dvd_def Let_def whole_payload_def)

lemma chain_dvd_two:
  assumes "5 \<le> length (buf_data buf)" "length (buf_data buf) < 2 ^ 32"
    and "check_header env dec (header_of (buf_data buf)) = (dec1, True)"
    and fa: "4 < first_access_of (buf_data buf)"
    and fit: "unat (first_access_of (buf_data buf)) + 1 \<le> length (buf_data buf)"
  shows "gst_dvdlpcmdec_chain_dvd env dec buf =
           (case gst_dvdlpcmdec_chain_raw env dec1 (previous_unit buf) of
              Inl f \<Rightarrow> Inl f
            | Inr (ret, dec2) \<Rightarrow>
                if ret \<noteq> GST_FLOW_OK then Inr (ret, dec2)
                else gst_dvdlpcmdec_chain_raw env dec2 (new_unit buf))"
  using assms(1,3) fa first_len_facts(1) [OF fa]
    create_sub_first [OF fa fit] create_sub_second [OF fa fit assms(2)]
  by (simp add: gst_dvdlpcmdec_chain_dvd_def Let_def previous_unit_def new_unit_def
           split: sum.splits)

lemma parse_header_frame:
  "trace (parse_header dec h) = trace dec" "header (parse_header dec h) = header dec"
  "timestamp (parse_header dec h) = timestamp dec"
  "srcpad_caps (parse_header dec h) = srcpad_caps dec"
  by (simp_all add: parse_header_def Let_def)

lemma check_header_same:
  "hdr = header dec \<Longrightarrow> check_header env dec hdr = (dec, True)"
  by (simp add: check_header_def)

lemma check_header_new:
  assumes "hdr \<noteq> header dec"
  shows "check_header env dec hdr =
    (let d = parse_header dec hdr;
         c = src_caps_of d;
         ok = pad_set_caps env (trace dec) c;
         d1 = log_event (SetCaps c ok) d
     in if ok then (d1\<lparr>srcpad_caps := Some c, header := hdr\<rparr>, True) else (d1, False))"
  using assms by (simp add: check_header_def Let_def parse_header_frame)

lemma check_header_trace:
  assumes "check_header env dec hdr = (dec1, ok)"
  shows "trace dec1 = trace dec @
           (if hdr \<noteq> header dec
            then [SetCaps (src_caps_of (parse_header dec hdr))
                    (pad_set_caps env (trace dec) (src_caps_of (parse_header dec hdr)))]
            else [])"
    and "ok \<longleftrightarrow> hdr = header dec \<or> pad_set_caps env (trace dec) (src_caps_of (parse_header dec hdr))"
    and "header dec1 = (if ok then hdr else header dec)"
  using assms
  by (auto simp: check_header_def Let_def parse_header_frame log_event_def split: if_splits)

lemma chain_dvd_effect:
  assumes "gst_dvdlpcmdec_chain_dvd env dec buf = Inr (ret, dec')"
  shows "\<exists>dec1 ok es.
           check_header env dec (header_of (buf_data buf)) = (dec1, ok)
         \<and> trace dec' = trace dec1 @ es \<and> negotiations es = []
         \<and> header dec' = header dec1
         \<and> (\<not> ok \<longrightarrow> ret = GST_FLOW_ERROR \<and> dec' = dec1)
         \<and> (ok \<longrightarrow> (\<exists>b es'. es = ChainRaw b # es'))"
proof -
  obtain dec1 ok where ch: "check_header env dec (header_of (buf_data buf)) = (dec1, ok)"
    by (cases "check_header env dec (header_of (buf_data buf))") auto
  have len: "5 \<le> length (buf_data buf)"
    using assms by (auto simp: gst_dvdlpcmdec_chain_dvd_def Let_def split: if_splits)
  show ?thesis
  proof (cases ok)
    case False
    then have "ret = GST_FLOW_ERROR \<and> dec' = dec1"
      using assms ch len by (simp add: gst_dvdlpcmdec_chain_dvd_def Let_def)
    then show ?thesis using ch False by auto
  next
    case True
    have "\<exists>b es'. trace dec' = trace dec1 @ ChainRaw b # es' \<and> negotiations es' = []
            \<and> header dec' = header dec1"
    proof -
      from assms ch len True consider
        (one) b where "gst_dvdlpcmdec_chain_raw env dec1 b = Inr (ret, dec')"
      | (two) b1 d2 b2 where "gst_dvdlpcmdec_chain_raw env dec1 b1 = Inr (GST_FLOW_OK, d2)"
                              "gst_dvdlpcmdec_chain_raw env d2 b2 = Inr (ret, dec')"
        by (auto simp: gst_dvdlpcmdec_chain_dvd_def Let_def
                 split: if_splits option.splits sum.splits)
      then show ?thesis
      proof cases
        case one
        from chain_raw_effect [OF one] show ?thesis by blast
      next
        case two
        from chain_raw_effect [OF two(1)] obtain e1 where
          a: "trace d2 = trace dec1 @ ChainRaw b1 # e1" "negotiations e1 = []"
             "header d2 = header dec1" by blast
        from chain_raw_effect [OF two(2)] obtain e2 where
          b: "trace dec' = trace d2 @ ChainRaw b2 # e2" "negotiations e2 = []"
             "header dec' = header d2" by blast
        have "trace dec' = trace dec1 @ ChainRaw b1 # (e1 @ ChainRaw b2 # e2)"
          using a b by simp
        moreover have "negotiations (e1 @ ChainRaw b2 # e2) = []"
          using a b by (simp add: negotiations_append)
        ultimately show ?thesis using a b by metis
      qed
    qed
    then show ?thesis using ch True by auto
  qed
qed

lemma chunk_fa8_fields:
  "first_access_of (buf_data chunk_fa8) = 8" "header_of (buf_data chunk_fa8) = 0x100"
  "length (buf_data chunk_fa8) = 13" "buf_timestamp chunk_fa8 = 1000"
  by (simp_all add: chunk_fa8_def first_access_of_def header_of_def)

lemma chunk_fa4_fields:
  "first_access_of (buf_data chunk_fa4) = 4" "header_of (buf_data chunk_fa4) = 0x100"
  "length (buf_data chunk_fa4) = 9" "buf_timestamp chunk_fa4 = 1000"
  by (simp_all add: chunk_fa4_def first_access_of_def header_of_def)

lemma chunk_fa100_fields:
  "first_access_of (buf_data chunk_fa100) = 100" "header_of (buf_data chunk_fa100) = 0x100"
  "length (buf_data chunk_fa100) = 9" "buf_timestamp chunk_fa100 = 1000"
  by (simp_all add: chunk_fa100_def first_access_of_def header_of_def)

lemma dec_init_fields:
  "header dec_init = 0" "trace dec_init = []" "rate dec_init = 0" "timestamp dec_init = 0"
  "srcpad_caps dec_init = None"
  by (simp_all add: dec_init_def)

lemma dec_init_is_reset: "gst_dvdlpcm_reset dec_init = dec_init"
  by (simp add: gst_dvdlpcm_reset_def dec_init_def)

lemma src_caps_dec_16: "src_caps_of dec_16 = caps_16"
  by (simp add: src_caps_of_def caps_16_def dec_16_def parse_header_def dec_init_def Let_def)

lemma check_header_first_ok:
  "check_header env_ok dec_init 0x100 =
     (dec_16\<lparr>trace := [SetCaps caps_16 True], srcpad_caps := Some caps_16, header := 0x100\<rparr>,
      True)"
  by (simp add: check_header_new dec_init_fields Let_def env_ok_fields log_event_def
        dec_16_def [symmetric] src_caps_dec_16 dec_16_fields)

lemma chain_raw_forwarded:
  assumes "gst_dvdlpcmdec_chain_raw env dec buf = Inr (ret, dec')"
  shows "forwarded (trace dec') = forwarded (trace dec) @ [buf]"
    and "negotiations (trace dec') = negotiations (trace dec)"
proof -
  from chain_raw_effect(1) [OF assms] obtain es where
    "trace dec' = trace dec @ ChainRaw buf # es" "forwarded es = []" "negotiations es = []"
    by blast
  then show "forwarded (trace dec') = forwarded (trace dec) @ [buf]"
    and "negotiations (trace dec') = negotiations (trace dec)"
    by (simp_all add: forwarded_append negotiations_append)
qed

lemma check_header_forwarded:
  assumes "check_header env dec hdr = (dec1, ok)"
  shows "forwarded (trace dec1) = forwarded (trace dec)"
    and "pushed (trace dec1) = pushed (trace dec)"
  using check_header_trace(1) [OF assms]
  by (simp_all add: forwarded_append pushed_append)

text \<open>
  C5, as amended. For a DVD-framed chunk of at least 5 bytes whose header check did not
  fail and whose \<open>first_access\<close> is greater than 4 and lies inside the chunk
  (\<open>first_access + 1\<close> is at most the length of the chunk), the framer hands to the
  converter first the \<open>first_access - 4\<close> bytes after the 5-byte header, without
  timestamp. When the converter does not return \<open>GST_FLOW_OK\<close> for them, the call returns
  that answer and hands on nothing else. When it returns \<open>GST_FLOW_OK\<close>, the framer hands
  on the remaining bytes with the timestamp of the chunk and returns the converter's
  answer for them: two sub-ranges, in this order.
\<close>

theorem two_sub_ranges_in_order:
  assumes len: "5 \<le> length (buf_data buf)" "length (buf_data buf) < 2 ^ 32"
    and neg: "check_header env dec (header_of (buf_data buf)) = (dec1, True)"
    and fa: "4 < first_access_of (buf_data buf)"
    and fit: "unat (first_access_of (buf_data buf)) + 1 \<le> length (buf_data buf)"
    and first: "gst_dvdlpcmdec_chain_raw env dec1 (previous_unit buf) = Inr (ret1, dec2)"
  shows "(ret1 \<noteq> GST_FLOW_OK \<longrightarrow>
            gst_dvdlpcmdec_chain_dvd env dec buf = Inr (ret1, dec2)
          \<and> sub_ranges (gst_dvdlpcmdec_chain_dvd env dec buf) =
              ranges_of (trace dec) @
              [(take (unat (first_access_of (buf_data buf)) - 4) (drop 5 (buf_data buf)),
                GST_CLOCK_TIME_NONE)])
       \<and> (ret1 = GST_FLOW_OK \<longrightarrow>
            gst_dvdlpcmdec_chain_dvd env dec buf =
              gst_dvdlpcmdec_chain_raw env dec2 (new_unit buf)
          \<and> (\<forall>ret2 dec3.
                gst_dvdlpcmdec_chain_raw env dec2 (new_unit buf) = Inr (ret2, dec3) \<longrightarrow>
                sub_ranges (gst_dvdlpcmdec_chain_dvd env dec buf) =
                  ranges_of (trace dec) @
                  [(take (unat (first_access_of (buf_data buf)) - 4) (drop 5 (buf_data buf)),
                    GST_CLOCK_TIME_NONE),
                   (drop (unat (first_access_of (buf_data buf)) + 1) (buf_data buf),
                    buf_timestamp buf)]))"
proof -
  note two = chain_dvd_two [OF len neg fa fit]
  have f1: "forwarded (trace dec2) = forwarded (trace dec) @ [previous_unit buf]"
    using chain_raw_forwarded(1) [OF first] check_header_forwarded(1) [OF neg] by simp
  have a: "gst_dvdlpcmdec_chain_dvd env dec buf = Inr (ret1, dec2)
          \<and> sub_ranges (gst_dvdlpcmdec_chain_dvd env dec buf) =
              ranges_of (trace dec) @
              [(take (unat (first_access_of (buf_data buf)) - 4) (drop 5 (buf_data buf)),
                GST_CLOCK_TIME_NONE)]"
    if "ret1 \<noteq> GST_FLOW_OK"
    using that two first f1
    by (simp add: sub_ranges_def ranges_of_def previous_unit_def)
  have b1: "gst_dvdlpcmdec_chain_dvd env dec buf =
              gst_dvdlpcmdec_chain_raw env dec2 (new_unit buf)"
    if "ret1 = GST_FLOW_OK"
    using that two first by simp
  have b2: "sub_ranges (gst_dvdlpcmdec_chain_dvd env dec buf) =
                  ranges_of (trace dec) @
                  [(take (unat (first_access_of (buf_data buf)) - 4) (drop 5 (buf_data buf)),
                    GST_CLOCK_TIME_NONE),
                   (drop (unat (first_access_of (buf_data buf)) + 1) (buf_data buf),
                    buf_timestamp buf)]"
    if ok: "ret1 = GST_FLOW_OK"
      and second: "gst_dvdlpcmdec_chain_raw env dec2 (new_unit buf) = Inr (ret2, dec3)"
    for ret2 dec3
    using chain_raw_forwarded(1) [OF second] f1 b1 [OF ok] second
    by (simp add: sub_ranges_def ranges_of_def previous_unit_def new_unit_def)
  from a b1 b2 show ?thesis by blast
qed

lemma convert_switch_format:
  assumes "convert_switch env dec buf = Inr sr"
  shows "\<exists>d. ((\<exists>r. sr = Leave r d) \<or> (\<exists>b s. sr = Tail d b s)) \<and> same_format d dec"
  using assms
  by (auto simp: convert_switch_def convert20_def Let_def log_event_def same_format_def
           split: if_splits sum.splits)

lemma update_timestamps_format:
  assumes "update_timestamps env dec buf samples = Inr (dec', buf')"
  shows "same_format dec' dec"
  using assms
  by (auto simp: update_timestamps_def Let_def same_format_def split: if_splits)

lemma chain_raw_format:
  assumes "gst_dvdlpcmdec_chain_raw env dec buf = Inr (ret, dec')"
  shows "same_format dec' dec"
proof (cases "rate dec = 0 \<or> \<not> pad_is_usable env (trace dec @ [ChainRaw buf])")
  case True
  then show ?thesis
    using assms
    by (auto simp: gst_dvdlpcmdec_chain_raw_def Let_def log_event_def same_format_def
             split: if_splits)
next
  case False
  let ?d1 = "log_event (ChainRaw buf) dec"
  have s1: "same_format ?d1 dec" by (simp add: same_format_def log_event_def)
  obtain sr where sw: "convert_switch env ?d1 buf = Inr sr"
    using assms False
    by (auto simp: gst_dvdlpcmdec_chain_raw_def Let_def log_event_def split: sum.splits)
  from convert_switch_format [OF sw] obtain d where
    d: "(\<exists>r. sr = Leave r d) \<or> (\<exists>b s. sr = Tail d b s)"
    and fr: "same_format d ?d1"
    by blast
  from d show ?thesis
  proof
    assume "\<exists>r. sr = Leave r d"
    then obtain r where "sr = Leave r d" ..
    then have "dec' = d"
      using assms False sw
      by (auto simp: gst_dvdlpcmdec_chain_raw_def Let_def log_event_def)
    then show ?thesis using fr s1 by (simp add: same_format_def)
  next
    assume "\<exists>b s. sr = Tail d b s"
    then obtain b s where sr: "sr = Tail d b s" by blast
    obtain d2 b2 where ut:
      "update_timestamps env d (b\<lparr>buf_caps := srcpad_caps d\<rparr>) s = Inr (d2, b2)"
      and fin: "dec' = log_event (Push b2 (pad_push env (trace d2) b2)) d2"
      using assms False sw sr
      by (auto simp: gst_dvdlpcmdec_chain_raw_def Let_def log_event_def
               split: sum.splits prod.splits)
    from update_timestamps_format [OF ut] have "same_format d2 d" .
    then show ?thesis using fr s1 fin by (simp add: same_format_def log_event_def)
  qed
qed

lemma env_unlinked_fields:
  "pad_set_caps env_unlinked tr c = True" "pad_is_usable env_unlinked tr = False"
  by (simp_all add: env_unlinked_def env_ok_def)

lemma env_reject_fields:
  "pad_set_caps env_reject tr c = False"
  by (simp_all add: env_reject_def env_ok_def)

lemma dec_16_negotiated_fields:
  "width dec_16_negotiated = 16" "rate dec_16_negotiated = 48000"
  "channels dec_16_negotiated = 2" "trace dec_16_negotiated = [SetCaps caps_16 True]"
  "timestamp dec_16_negotiated = 0" "header dec_16_negotiated = 0x100"
  by (simp_all add: dec_16_negotiated_def dec_16_fields)

lemma check_header_first:
  "check_header env_ok dec_init 0x100 = (dec_16_negotiated, True)"
  "check_header env_unlinked dec_init 0x100 = (dec_16_negotiated, True)"
  by (simp_all add: check_header_new dec_init_fields Let_def env_ok_fields env_unlinked_fields
        log_event_def dec_16_def [symmetric] src_caps_dec_16 dec_16_fields
        dec_16_negotiated_def)

lemma chain_raw_16_env_ok:
  assumes "width dec = 16" "rate dec \<noteq> 0" "channels dec \<noteq> 0"
  shows "\<exists>dec'. gst_dvdlpcmdec_chain_raw env_ok dec buf = Inr (GST_FLOW_OK, dec')"
  by (simp add: chain_raw_16 [OF assms] env_ok_fields Let_def)

lemma chain_raw_unlinked:
  assumes "rate dec \<noteq> 0"
  shows "gst_dvdlpcmdec_chain_raw env_unlinked dec buf =
           Inr (GST_FLOW_NOT_LINKED, log_event (ChainRaw buf) dec)"
  using assms
  by (simp add: gst_dvdlpcmdec_chain_raw_def Let_def log_event_def env_unlinked_fields)

theorem two_sub_ranges_in_order_witness:
  "4 < first_access_of (buf_data chunk_fa8)
   \<and> sub_ranges (gst_dvdlpcmdec_chain_dvd env_ok dec_init chunk_fa8) =
       [([1, 2, 3, 4], GST_CLOCK_TIME_NONE), ([5, 6, 7, 8], 1000)]"
proof -
  have len: "5 \<le> length (buf_data chunk_fa8)" "length (buf_data chunk_fa8) < 2 ^ 32"
    by (simp_all add: chunk_fa8_fields)
  have neg: "check_header env_ok dec_init (header_of (buf_data chunk_fa8)) =
               (dec_16_negotiated, True)"
    by (simp add: chunk_fa8_fields check_header_first)
  have fa: "4 < first_access_of (buf_data chunk_fa8)" by (simp add: chunk_fa8_fields)
  have fit: "unat (first_access_of (buf_data chunk_fa8)) + 1 \<le> length (buf_data chunk_fa8)"
    by (simp add: chunk_fa8_fields)
  obtain dec2 where first:
    "gst_dvdlpcmdec_chain_raw env_ok dec_16_negotiated (previous_unit chunk_fa8) =
       Inr (GST_FLOW_OK, dec2)"
    using chain_raw_16_env_ok [of dec_16_negotiated] by (auto simp: dec_16_negotiated_fields)
  have "same_format dec2 dec_16_negotiated" by (rule chain_raw_format [OF first])
  then have f2: "width dec2 = 16" "rate dec2 \<noteq> 0" "channels dec2 \<noteq> 0"
    by (simp_all add: same_format_def dec_16_negotiated_fields)
  obtain dec3 where second:
    "gst_dvdlpcmdec_chain_raw env_ok dec2 (new_unit chunk_fa8) = Inr (GST_FLOW_OK, dec3)"
    using chain_raw_16_env_ok [OF f2] by blast
  from two_sub_ranges_in_order [OF len neg fa fit first] second
  have "sub_ranges (gst_dvdlpcmdec_chain_dvd env_ok dec_init chunk_fa8) =
          ranges_of (trace dec_init) @
          [(take (unat (first_access_of (buf_data chunk_fa8)) - 4)
              (drop 5 (buf_data chunk_fa8)), GST_CLOCK_TIME_NONE),
           (drop (unat (first_access_of (buf_data chunk_fa8)) + 1) (buf_data chunk_fa8),
            buf_timestamp chunk_fa8)]"
    by blast
  then have "sub_ranges (gst_dvdlpcmdec_chain_dvd env_ok dec_init chunk_fa8) =
       [([1, 2, 3, 4], GST_CLOCK_TIME_NONE), ([5, 6, 7, 8], 1000)]"
    by (simp add: chunk_fa8_fields dec_init_fields ranges_of_def) (simp add: chunk_fa8_def)
  with fa show ?thesis by (rule conjI)
qed

theorem unlinked_pad_one_sub_range_counterexample:
  "4 < first_access_of (buf_data chunk_fa8)
   \<and> sub_ranges (gst_dvdlpcmdec_chain_dvd env_unlinked dec_init chunk_fa8) =
       [([1, 2, 3, 4], GST_CLOCK_TIME_NONE)]"
proof -
  have len: "5 \<le> length (buf_data chunk_fa8)" "length (buf_data chunk_fa8) < 2 ^ 32"
    by (simp_all add: chunk_fa8_fields)
  have neg: "check_header env_unlinked dec_init (header_of (buf_data chunk_fa8)) =
               (dec_16_negotiated, True)"
    by (simp add: chunk_fa8_fields check_header_first)
  have fa: "4 < first_access_of (buf_data chunk_fa8)" by (simp add: chunk_fa8_fields)
  have fit: "unat (first_access_of (buf_data chunk_fa8)) + 1 \<le> length (buf_data chunk_fa8)"
    by (simp add: chunk_fa8_fields)
  have first:
    "gst_dvdlpcmdec_chain_raw env_unlinked dec_16_negotiated (previous_unit chunk_fa8) =
       Inr (GST_FLOW_NOT_LINKED, log_event (ChainRaw (previous_unit chunk_fa8)) dec_16_negotiated)"
    by (rule chain_raw_unlinked) (simp add: dec_16_negotiated_fields)
  have "gst_dvdlpcmdec_chain_dvd env_unlinked dec_init chunk_fa8 =
          Inr (GST_FLOW_NOT_LINKED,
               log_event (ChainRaw (previous_unit chunk_fa8)) dec_16_negotiated)"
    by (simp add: chain_dvd_two [OF len neg fa fit] first)
  then have "sub_ranges (gst_dvdlpcmdec_chain_dvd env_unlinked dec_init chunk_fa8) =
       [([1, 2, 3, 4], GST_CLOCK_TIME_NONE)]"
    by (simp add: sub_ranges_def log_event_def dec_16_negotiated_fields previous_unit_def
          chunk_fa8_fields)
       (simp add: chunk_fa8_def)
  with fa show ?thesis by (rule conjI)
qed

text \<open>
  C6, at a chunk with \<open>first_access = 4\<close> and the timestamp 1000: the test
  \<open>first_access > 4\<close> sends it to the branch for offsets without a timestamp, so the one
  sub-range that covers the payload is handed on without timestamp, not with the
  timestamp of the chunk.
\<close>

theorem first_access_4_loses_timestamp:
  "first_access_of (buf_data chunk_fa4) = 4
   \<and> buf_timestamp chunk_fa4 = 1000
   \<and> sub_ranges (gst_dvdlpcmdec_chain_dvd env_ok dec_init chunk_fa4) =
       [([1, 2, 3, 4], GST_CLOCK_TIME_NONE)]
   \<and> GST_CLOCK_TIME_NONE \<noteq> buf_timestamp chunk_fa4"
proof -
  have len: "5 \<le> length (buf_data chunk_fa4)" "length (buf_data chunk_fa4) < 2 ^ 32"
    by (simp_all add: chunk_fa4_fields)
  have neg: "check_header env_ok dec_init (header_of (buf_data chunk_fa4)) =
               (dec_16_negotiated, True)"
    by (simp add: chunk_fa4_fields check_header_first)
  have fa: "\<not> 4 < first_access_of (buf_data chunk_fa4)" by (simp add: chunk_fa4_fields)
  obtain dec2 where conv:
    "gst_dvdlpcmdec_chain_raw env_ok dec_16_negotiated (whole_payload chunk_fa4) =
       Inr (GST_FLOW_OK, dec2)"
    using chain_raw_16_env_ok [of dec_16_negotiated] by (auto simp: dec_16_negotiated_fields)
  have "gst_dvdlpcmdec_chain_dvd env_ok dec_init chunk_fa4 = Inr (GST_FLOW_OK, dec2)"
    by (simp add: chain_dvd_single [OF len neg fa] conv)
  moreover have "forwarded (trace dec2) = [whole_payload chunk_fa4]"
    using chain_raw_forwarded(1) [OF conv] by (simp add: dec_16_negotiated_fields)
  ultimately have "sub_ranges (gst_dvdlpcmdec_chain_dvd env_ok dec_init chunk_fa4) =
       [([1, 2, 3, 4], GST_CLOCK_TIME_NONE)]"
    by (simp add: sub_ranges_def whole_payload_def) (simp add: chunk_fa4_def)
  then show ?thesis
    by (simp add: chunk_fa4_fields GST_CLOCK_TIME_NONE_def)
qed

lemma first_access_outside_chunk:
  "gst_dvdlpcmdec_chain_dvd env_ok dec_init chunk_fa100 = Inl OutOfBounds"
proof -
  have "gst_buffer_create_sub chunk_fa100 5 (100 - 4) = None"
    by (simp add: gst_buffer_create_sub_def chunk_fa100_fields)
  then show ?thesis
    by (simp add: gst_dvdlpcmdec_chain_dvd_def Let_def chunk_fa100_fields check_header_first
          word_sless_alt)
qed

lemma chain_dvd_proposal:
  assumes "gst_dvdlpcmdec_chain_dvd env dec buf = Inr (ret, dec')"
  shows "\<exists>es. trace dec' = trace dec @
                (if header_of (buf_data buf) \<noteq> header dec
                 then [SetCaps (src_caps_of (parse_header dec (header_of (buf_data buf))))
                         (pad_set_caps env (trace dec)
                            (src_caps_of (parse_header dec (header_of (buf_data buf)))))]
                 else []) @ es
              \<and> negotiations es = []
              \<and> (header_of (buf_data buf) \<noteq> header dec
                   \<and> \<not> pad_set_caps env (trace dec)
                         (src_caps_of (parse_header dec (header_of (buf_data buf))))
                   \<longrightarrow> es = [] \<and> ret = GST_FLOW_ERROR)"
    and "header dec' =
           (if header_of (buf_data buf) = header dec
               \<or> pad_set_caps env (trace dec)
                    (src_caps_of (parse_header dec (header_of (buf_data buf))))
            then header_of (buf_data buf) else header dec)"
proof -
  from chain_dvd_effect [OF assms] obtain dec1 ok es where
    ch: "check_header env dec (header_of (buf_data buf)) = (dec1, ok)"
    and tr: "trace dec' = trace dec1 @ es" "negotiations es = []"
    and hd: "header dec' = header dec1"
    and fail: "\<not> ok \<longrightarrow> ret = GST_FLOW_ERROR \<and> dec' = dec1"
    by blast
  note t = check_header_trace [OF ch]
  have e: "es = []" if "\<not> ok" using that fail tr(1) by simp
  show "\<exists>es. trace dec' = trace dec @
                (if header_of (buf_data buf) \<noteq> header dec
                 then [SetCaps (src_caps_of (parse_header dec (header_of (buf_data buf))))
                         (pad_set_caps env (trace dec)
                            (src_caps_of (parse_header dec (header_of (buf_data buf)))))]
                 else []) @ es
              \<and> negotiations es = []
              \<and> (header_of (buf_data buf) \<noteq> header dec
                   \<and> \<not> pad_set_caps env (trace dec)
                         (src_caps_of (parse_header dec (header_of (buf_data buf))))
                   \<longrightarrow> es = [] \<and> ret = GST_FLOW_ERROR)"
    using tr t(1) t(2) fail e by (intro exI [of _ es]) auto
  show "header dec' =
           (if header_of (buf_data buf) = header dec
               \<or> pad_set_caps env (trace dec)
                    (src_caps_of (parse_header dec (header_of (buf_data buf))))
            then header_of (buf_data buf) else header dec)"
    using hd t(2) t(3) by auto
qed

lemma chain_dvd_negotiations:
  assumes "gst_dvdlpcmdec_chain_dvd env dec buf = Inr (ret, dec')"
  shows "negotiations (trace dec') = negotiations (trace dec) @
           (if header_of (buf_data buf) \<noteq> header dec
            then [(src_caps_of (parse_header dec (header_of (buf_data buf))),
                   pad_set_caps env (trace dec)
                     (src_caps_of (parse_header dec (header_of (buf_data buf)))))]
            else [])"
  using chain_dvd_proposal(1) [OF assms] by (auto simp: negotiations_append)

lemma chain_dvd_fa8_returns:
  "\<exists>dec'. gst_dvdlpcmdec_chain_dvd env_ok dec_init chunk_fa8 = Inr (GST_FLOW_OK, dec')
          \<and> same_format dec' dec_16_negotiated"
proof -
  have len: "5 \<le> length (buf_data chunk_fa8)" "length (buf_data chunk_fa8) < 2 ^ 32"
    by (simp_all add: chunk_fa8_fields)
  have neg: "check_header env_ok dec_init (header_of (buf_data chunk_fa8)) =
               (dec_16_negotiated, True)"
    by (simp add: chunk_fa8_fields check_header_first)
  have fa: "4 < first_access_of (buf_data chunk_fa8)" by (simp add: chunk_fa8_fields)
  have fit: "unat (first_access_of (buf_data chunk_fa8)) + 1 \<le> length (buf_data chunk_fa8)"
    by (simp add: chunk_fa8_fields)
  obtain dec2 where first:
    "gst_dvdlpcmdec_chain_raw env_ok dec_16_negotiated (previous_unit chunk_fa8) =
       Inr (GST_FLOW_OK, dec2)"
    using chain_raw_16_env_ok [of dec_16_negotiated] by (auto simp: dec_16_negotiated_fields)
  have s2: "same_format dec2 dec_16_negotiated" by (rule chain_raw_format [OF first])
  then have f2: "width dec2 = 16" "rate dec2 \<noteq> 0" "channels dec2 \<noteq> 0"
    by (simp_all add: same_format_def dec_16_negotiated_fields)
  obtain dec3 where second:
    "gst_dvdlpcmdec_chain_raw env_ok dec2 (new_unit chunk_fa8) = Inr (GST_FLOW_OK, dec3)"
    using chain_raw_16_env_ok [OF f2] by blast
  have "same_format dec3 dec2" by (rule chain_raw_format [OF second])
  with s2 have s3: "same_format dec3 dec_16_negotiated" by (simp add: same_format_def)
  have "gst_dvdlpcmdec_chain_dvd env_ok dec_init chunk_fa8 = Inr (GST_FLOW_OK, dec3)"
    using chain_dvd_two [OF len neg fa fit] first second by simp
  with s3 show ?thesis by blast
qed

lemma chain_dvd_fa4_returns:
  assumes "same_format dec dec_16_negotiated"
  shows "\<exists>dec'. gst_dvdlpcmdec_chain_dvd env_ok dec chunk_fa4 = Inr (GST_FLOW_OK, dec')"
proof -
  from assms have f: "width dec = 16" "rate dec \<noteq> 0" "channels dec \<noteq> 0"
    and h: "header dec = 0x100"
    by (simp_all add: same_format_def dec_16_negotiated_fields)
  have len: "5 \<le> length (buf_data chunk_fa4)" "length (buf_data chunk_fa4) < 2 ^ 32"
    by (simp_all add: chunk_fa4_fields)
  have neg: "check_header env_ok dec (header_of (buf_data chunk_fa4)) = (dec, True)"
    by (simp add: chunk_fa4_fields check_header_same h)
  have fa: "\<not> 4 < first_access_of (buf_data chunk_fa4)" by (simp add: chunk_fa4_fields)
  show ?thesis
    using chain_dvd_single [OF len neg fa] chain_raw_16_env_ok [OF f, of "whole_payload chunk_fa4"]
    by simp
qed

lemma chain_dvd_env_reject:
  assumes "5 \<le> length (buf_data buf)" and "header_of (buf_data buf) \<noteq> header dec"
  shows "\<exists>dec'. gst_dvdlpcmdec_chain_dvd env_reject dec buf = Inr (GST_FLOW_ERROR, dec')"
proof -
  have "\<exists>d. check_header env_reject dec (header_of (buf_data buf)) = (d, False)"
    by (simp add: check_header_new [OF assms(2)] Let_def env_reject_fields)
  then show ?thesis using chain_dvd_failed [OF assms(1)] by blast
qed

lemma src_caps_first: "src_caps_of (parse_header dec_init 0x100) = caps_16"
  using src_caps_dec_16 by (simp add: dec_16_def)


lemma chain_dvd_format:
  assumes "gst_dvdlpcmdec_chain_dvd env dec buf = Inr (ret, dec')"
  shows "\<exists>dec1 ok. check_header env dec (header_of (buf_data buf)) = (dec1, ok)
                   \<and> same_format dec' dec1"
proof -
  obtain dec1 ok where ch: "check_header env dec (header_of (buf_data buf)) = (dec1, ok)"
    by (cases "check_header env dec (header_of (buf_data buf))") auto
  have len: "5 \<le> length (buf_data buf)"
    using assms by (auto simp: gst_dvdlpcmdec_chain_dvd_def Let_def split: if_splits)
  have "same_format dec' dec1"
  proof (cases ok)
    case False
    then have "dec' = dec1"
      using assms ch len by (simp add: gst_dvdlpcmdec_chain_dvd_def Let_def)
    then show ?thesis by (simp add: same_format_def)
  next
    case True
    from assms ch len True consider
      (one) b where "gst_dvdlpcmdec_chain_raw env dec1 b = Inr (ret, dec')"
    | (two) b1 d2 b2 where "gst_dvdlpcmdec_chain_raw env dec1 b1 = Inr (GST_FLOW_OK, d2)"
                            "gst_dvdlpcmdec_chain_raw env d2 b2 = Inr (ret, dec')"
      by (auto simp: gst_dvdlpcmdec_chain_dvd_def Let_def
               split: if_splits option.splits sum.splits)
    then show ?thesis
    proof cases
      case one
      then show ?thesis by (rule chain_raw_format)
    next
      case two
      from chain_raw_format [OF two(1)] chain_raw_format [OF two(2)]
      show ?thesis by (simp add: same_format_def)
    qed
  qed
  with ch show ?thesis by blast
qed

lemma check_header_format:
  assumes "check_header env dec hdr = (dec1, ok)"
  shows "stream_format dec1 =
           stream_format (if hdr \<noteq> header dec then parse_header dec hdr else dec)"
    and "srcpad_caps dec1 =
           (if hdr \<noteq> header dec
               \<and> pad_set_caps env (trace dec) (src_caps_of (parse_header dec hdr))
            then Some (src_caps_of (parse_header dec hdr)) else srcpad_caps dec)"
  using assms
  by (auto simp: check_header_def Let_def parse_header_frame log_event_def stream_format_def
           split: if_splits)

lemma same_format_stream:
  "same_format a b \<Longrightarrow> stream_format a = stream_format b \<and> srcpad_caps a = srcpad_caps b"
  by (simp add: same_format_def stream_format_def)

lemma stream_format_first:
  "stream_format (parse_header dec_init 0x100) = (48000, 2, 16, 16, 0, False, False)"
  by (simp add: stream_format_def parse_header_def dec_init_def Let_def)

lemma src_caps_again: "src_caps_of (parse_header dec_16_refused 0x100) = caps_16"
  by (simp add: src_caps_of_def caps_16_def parse_header_def Let_def)

lemma dec_16_refused_fields:
  "header dec_16_refused = 0" "trace dec_16_refused = [SetCaps caps_16 False]"
  by (simp_all add: dec_16_refused_def dec_16_fields)

lemma check_header_refused:
  "check_header env_reject dec_init 0x100 = (dec_16_refused, False)"
  by (simp add: check_header_new dec_init_fields Let_def env_reject_fields
        log_event_def dec_16_def [symmetric] src_caps_dec_16 dec_16_fields dec_16_refused_def)

text \<open>
  C7, as amended. In a call of the framer that returns, the caps are proposed downstream
  if and only if the header word of the chunk differs from the stored one, and then
  exactly once, as the first thing the call does: every sub-range is handed to the
  converter after it. The stream format after the call is the one \<open>parse_header\<close> derives
  from the new header word when the word differs, and the old one when it does not. When
  the pipeline refuses the caps the call returns \<open>GST_FLOW_ERROR\<close>, hands no sub-range to
  the converter, pushes no buffer and keeps the old stored header word; otherwise the
  header word of the chunk is the stored one after the call. A following chunk with the
  same header word proposes nothing, except after a refused proposal: then it proposes
  caps once more.
\<close>

theorem renegotiation_iff_header_differs:
  assumes run: "gst_dvdlpcmdec_chain_dvd env dec buf = Inr (ret, dec')"
  shows "let hdr = header_of (buf_data buf);
             caps = src_caps_of (parse_header dec hdr);
             ok = pad_set_caps env (trace dec) caps
         in negotiations (trace dec') =
              negotiations (trace dec) @ (if hdr \<noteq> header dec then [(caps, ok)] else [])
          \<and> stream_format dec' =
              stream_format (if hdr \<noteq> header dec then parse_header dec hdr else dec)
          \<and> srcpad_caps dec' = (if hdr \<noteq> header dec \<and> ok then Some caps else srcpad_caps dec)
          \<and> header dec' = (if hdr \<noteq> header dec \<and> \<not> ok then header dec else hdr)
          \<and> (hdr \<noteq> header dec \<longrightarrow>
                (\<exists>es. trace dec' = trace dec @ SetCaps caps ok # es \<and> negotiations es = []))
          \<and> (hdr \<noteq> header dec \<and> \<not> ok \<longrightarrow>
                ret = GST_FLOW_ERROR \<and> pushed (trace dec') = pushed (trace dec)
                \<and> forwarded (trace dec') = forwarded (trace dec))
          \<and> (\<forall>buf2 ret2 dec2.
                header_of (buf_data buf2) = hdr
                \<and> gst_dvdlpcmdec_chain_dvd env dec' buf2 = Inr (ret2, dec2)
                \<longrightarrow> negotiations (trace dec2) =
                      negotiations (trace dec') @
                      (if hdr \<noteq> header dec \<and> \<not> ok
                       then [(src_caps_of (parse_header dec' hdr),
                              pad_set_caps env (trace dec') (src_caps_of (parse_header dec' hdr)))]
                       else []))"
proof -
  let ?hdr = "header_of (buf_data buf)"
  let ?caps = "src_caps_of (parse_header dec ?hdr)"
  let ?ok = "pad_set_caps env (trace dec) ?caps"
  from chain_dvd_proposal(1) [OF run] obtain es where
    tr: "trace dec' = trace dec @ (if ?hdr \<noteq> header dec then [SetCaps ?caps ?ok] else []) @ es"
    and quiet: "negotiations es = []"
    and fail: "?hdr \<noteq> header dec \<and> \<not> ?ok \<longrightarrow> es = [] \<and> ret = GST_FLOW_ERROR"
    by blast
  from chain_dvd_format [OF run] obtain dec1 ok1 where
    ch: "check_header env dec ?hdr = (dec1, ok1)" and fmt: "same_format dec' dec1"
    by blast
  have a: "negotiations (trace dec') =
             negotiations (trace dec) @ (if ?hdr \<noteq> header dec then [(?caps, ?ok)] else [])"
    by (rule chain_dvd_negotiations [OF run])
  have f: "stream_format dec' =
             stream_format (if ?hdr \<noteq> header dec then parse_header dec ?hdr else dec)"
    using same_format_stream [OF fmt] check_header_format(1) [OF ch] by simp
  have g: "srcpad_caps dec' = (if ?hdr \<noteq> header dec \<and> ?ok then Some ?caps else srcpad_caps dec)"
    using same_format_stream [OF fmt] check_header_format(2) [OF ch] by simp
  have h: "header dec' = (if ?hdr \<noteq> header dec \<and> \<not> ?ok then header dec else ?hdr)"
    using chain_dvd_proposal(2) [OF run] by auto
  have b: "\<exists>es. trace dec' = trace dec @ SetCaps ?caps ?ok # es \<and> negotiations es = []"
    if "?hdr \<noteq> header dec"
    using that tr quiet by auto
  have c: "ret = GST_FLOW_ERROR \<and> pushed (trace dec') = pushed (trace dec)
           \<and> forwarded (trace dec') = forwarded (trace dec)"
    if "?hdr \<noteq> header dec \<and> \<not> ?ok"
    using that tr fail by (simp add: pushed_append forwarded_append)
  have d: "negotiations (trace dec2) =
             negotiations (trace dec') @
             (if ?hdr \<noteq> header dec \<and> \<not> ?ok
              then [(src_caps_of (parse_header dec' ?hdr),
                     pad_set_caps env (trace dec') (src_caps_of (parse_header dec' ?hdr)))]
              else [])"
    if same: "header_of (buf_data buf2) = ?hdr"
      and run2: "gst_dvdlpcmdec_chain_dvd env dec' buf2 = Inr (ret2, dec2)"
    for buf2 ret2 dec2
    using chain_dvd_negotiations [OF run2] h same by auto
  from a f g h b c d show ?thesis unfolding Let_def by blast
qed

theorem renegotiation_iff_header_differs_witness:
  "(\<exists>ret dec'. gst_dvdlpcmdec_chain_dvd env_ok dec_init chunk_fa8 = Inr (ret, dec')
      \<and> header_of (buf_data chunk_fa8) \<noteq> header dec_init
      \<and> negotiations (trace dec') = [(caps_16, True)]
      \<and> stream_format dec' = (48000, 2, 16, 16, 0, False, False)
      \<and> srcpad_caps dec' = Some caps_16
      \<and> (\<exists>es. trace dec' = SetCaps caps_16 True # es \<and> negotiations es = [])
      \<and> header dec' = 0x100
      \<and> (\<exists>ret2 dec2. gst_dvdlpcmdec_chain_dvd env_ok dec' chunk_fa4 = Inr (ret2, dec2)
             \<and> negotiations (trace dec2) = [(caps_16, True)]))
   \<and> (\<exists>ret dec'. gst_dvdlpcmdec_chain_dvd env_reject dec_init chunk_fa8 = Inr (ret, dec')
         \<and> ret = GST_FLOW_ERROR \<and> pushed (trace dec') = [] \<and> forwarded (trace dec') = []
         \<and> negotiations (trace dec') = [(caps_16, False)]
         \<and> header dec' = 0
         \<and> (\<exists>ret2 dec2. gst_dvdlpcmdec_chain_dvd env_reject dec' chunk_fa8 = Inr (ret2, dec2)
               \<and> negotiations (trace dec2) = [(caps_16, False), (caps_16, False)]))"
proof -
  obtain dec' where run: "gst_dvdlpcmdec_chain_dvd env_ok dec_init chunk_fa8 = Inr (GST_FLOW_OK, dec')"
    and fmt: "same_format dec' dec_16_negotiated"
    using chain_dvd_fa8_returns by blast
  obtain dec2 where run2: "gst_dvdlpcmdec_chain_dvd env_ok dec' chunk_fa4 = Inr (GST_FLOW_OK, dec2)"
    using chain_dvd_fa4_returns [OF fmt] by blast
  note t = renegotiation_iff_header_differs [OF run, unfolded Let_def]
  have new: "header_of (buf_data chunk_fa8) \<noteq> header dec_init"
    by (simp add: chunk_fa8_fields dec_init_fields)
  have n1: "negotiations (trace dec') = [(caps_16, True)]"
    using t new
    by (simp add: chunk_fa8_fields dec_init_fields src_caps_first env_ok_fields)
  have s1: "stream_format dec' = (48000, 2, 16, 16, 0, False, False)"
    "srcpad_caps dec' = Some caps_16"
    using t new
    by (simp_all add: chunk_fa8_fields dec_init_fields src_caps_first env_ok_fields
          stream_format_first)
  have e1: "\<exists>es. trace dec' = SetCaps caps_16 True # es \<and> negotiations es = []"
    using t new
    by (simp add: chunk_fa8_fields dec_init_fields src_caps_first env_ok_fields)
  have h1: "header dec' = 0x100"
    using t by (simp add: chunk_fa8_fields dec_init_fields src_caps_first env_ok_fields)
  have "\<forall>buf2 ret2 dec2. header_of (buf_data buf2) = 0x100
           \<and> gst_dvdlpcmdec_chain_dvd env_ok dec' buf2 = Inr (ret2, dec2)
           \<longrightarrow> negotiations (trace dec2) = negotiations (trace dec')"
    using t by (simp add: chunk_fa8_fields dec_init_fields src_caps_first env_ok_fields)
  then have "negotiations (trace dec2) = negotiations (trace dec')"
    using run2 chunk_fa4_fields(2) by blast
  with n1 have n2: "negotiations (trace dec2) = [(caps_16, True)]" by simp
  have runr:
    "gst_dvdlpcmdec_chain_dvd env_reject dec_init chunk_fa8 = Inr (GST_FLOW_ERROR, dec_16_refused)"
    by (rule chain_dvd_failed) (simp_all add: chunk_fa8_fields check_header_refused)
  obtain decs where runs:
    "gst_dvdlpcmdec_chain_dvd env_reject dec_16_refused chunk_fa8 = Inr (GST_FLOW_ERROR, decs)"
    using chain_dvd_env_reject [of chunk_fa8 dec_16_refused]
    by (auto simp: chunk_fa8_fields dec_16_refused_fields)
  note r = renegotiation_iff_header_differs [OF runr, unfolded Let_def]
  have r1: "pushed (trace dec_16_refused) = []" "forwarded (trace dec_16_refused) = []"
    "negotiations (trace dec_16_refused) = [(caps_16, False)]" "header dec_16_refused = 0"
    using r new
    by (simp_all add: chunk_fa8_fields dec_init_fields src_caps_first env_reject_fields)
  have "\<forall>buf2 ret2 dec2. header_of (buf_data buf2) = 0x100
           \<and> gst_dvdlpcmdec_chain_dvd env_reject dec_16_refused buf2 = Inr (ret2, dec2)
           \<longrightarrow> negotiations (trace dec2) = negotiations (trace dec_16_refused) @ [(caps_16, False)]"
    using r
    by (simp add: chunk_fa8_fields dec_init_fields src_caps_first env_reject_fields
          src_caps_again)
  then have "negotiations (trace decs) = negotiations (trace dec_16_refused) @ [(caps_16, False)]"
    using runs chunk_fa8_fields(2) by blast
  with r1 have r2: "negotiations (trace decs) = [(caps_16, False), (caps_16, False)]" by simp
  from run new n1 s1 e1 h1 run2 n2 runr r1 runs r2 show ?thesis by blast
qed

theorem same_header_proposed_twice_counterexample:
  "header_of (buf_data chunk_fa8) = 0x100
   \<and> gst_dvdlpcmdec_chain_dvd env_reject dec_init chunk_fa8 =
       Inr (GST_FLOW_ERROR, dec_16_refused)
   \<and> proposals (gst_dvdlpcmdec_chain_dvd env_reject dec_init chunk_fa8) = [(caps_16, False)]
   \<and> proposals (gst_dvdlpcmdec_chain_dvd env_reject dec_16_refused chunk_fa8) =
       [(caps_16, False), (caps_16, False)]"
proof -
  have len: "5 \<le> length (buf_data chunk_fa8)" by (simp add: chunk_fa8_fields)
  have first: "gst_dvdlpcmdec_chain_dvd env_reject dec_init chunk_fa8 =
                 Inr (GST_FLOW_ERROR, dec_16_refused)"
    by (rule chain_dvd_failed [OF len]) (simp add: chunk_fa8_fields check_header_refused)
  have "check_header env_reject dec_16_refused (header_of (buf_data chunk_fa8)) =
          (log_event (SetCaps caps_16 False) (parse_header dec_16_refused 0x100), False)"
    by (simp add: chunk_fa8_fields check_header_new dec_16_refused_fields Let_def
          env_reject_fields src_caps_again)
  from chain_dvd_failed [OF len this]
  have second: "proposals (gst_dvdlpcmdec_chain_dvd env_reject dec_16_refused chunk_fa8) =
                  [(caps_16, False), (caps_16, False)]"
    by (simp add: proposals_def log_event_def parse_header_frame dec_16_refused_fields)
  show ?thesis
    using first second by (simp add: chunk_fa8_fields proposals_def dec_16_refused_fields)
qed



end
